theory Spec2Isabelle
  imports Main "HOL-Library.AList"
begin

section \<open>JavaScript values\<close>

text \<open>
  The values that travel through the continuation channel (\<open>err\<close>, the result of
  \<open>layer.match\<close>, parameter values). \<open>JObj n\<close> is an object (an \<open>Error\<close>, say)
  identified by its reference \<open>n\<close>, so that \<open>===\<close> is equality of the datatype.
\<close>

datatype jsval = JUndefined | JNull | JBool bool | JNum int | JStr string | JObj nat

text \<open>JavaScript truthiness, as tested by \<open>if (err)\<close>, \<open>a || b\<close> and \<open>!x\<close>.\<close>

fun truthy :: "jsval \<Rightarrow> bool" where
  "truthy JUndefined = False"
| "truthy JNull = False"
| "truthy (JBool b) = b"
| "truthy (JNum n) = (n \<noteq> 0)"
| "truthy (JStr s) = (s \<noteq> [])"
| "truthy (JObj _) = True"

text \<open>\<open>a || b\<close>\<close>

definition js_or :: "jsval \<Rightarrow> jsval \<Rightarrow> jsval" where
  "js_or a b = (if truthy a then a else b)"

text \<open>\<open>typeof v === 'boolean'\<close>\<close>

fun is_boolean :: "jsval \<Rightarrow> bool" where
  "is_boolean (JBool _) = True"
| "is_boolean _ = False"

section \<open>Parameter objects\<close>

text \<open>
  A property key of a parameter object is either a canonical array index (the property
  \<open>0\<close>, \<open>1\<close>, ... that \<open>i in params\<close> and \<open>params[i + o]\<close> address with a number) or
  any other name. A parameter object is an association list read through \<open>map_of\<close>;
  \<open>k in obj\<close> is \<open>map_of obj k \<noteq> None\<close>.
\<close>

datatype pkey = Idx nat | Name string

type_synonym params = "(pkey \<times> jsval) list"

definition has_key :: "params \<Rightarrow> pkey \<Rightarrow> bool" where
  "has_key ps k = (map_of ps k \<noteq> None)"

text \<open>\<open>obj[k]\<close>: a missing property reads as \<open>undefined\<close>.\<close>

definition get_prop :: "params \<Rightarrow> pkey \<Rightarrow> jsval" where
  "get_prop ps k = (case map_of ps k of None \<Rightarrow> JUndefined | Some v \<Rightarrow> v)"

text \<open>
  \<open>mixin(a, b)\<close> of utils-merge: \<open>for (var key in b) a[key] = b[key]\<close>.
\<close>

fun mixin_keys :: "params \<Rightarrow> params \<Rightarrow> pkey list \<Rightarrow> params" where
  "mixin_keys a b [] = a"
| "mixin_keys a b (k # ks) = mixin_keys (AList.update k (get_prop b k) a) b ks"

definition mixin :: "params \<Rightarrow> params \<Rightarrow> params" where
  "mixin a b = mixin_keys a b (map fst b)"

text \<open>
  \<open>while (i in params) i++\<close>, started at \<open>i\<close>: the first index from \<open>i\<close> on that
  the object does not have.
\<close>

definition idx_weight :: "params \<Rightarrow> nat" where
  "idx_weight ps = sum_list (map (\<lambda>(k, v). case k of Idx j \<Rightarrow> Suc j | Name _ \<Rightarrow> 0) ps)"

function numeric_gap :: "params \<Rightarrow> nat \<Rightarrow> nat" where
  "numeric_gap ps i = (if has_key ps (Idx i) then numeric_gap ps (Suc i) else i)"
  by pat_completeness auto
termination
proof (relation "measure (\<lambda>(ps, i). idx_weight ps - i)")
  show "wf (measure (\<lambda>(ps, i). idx_weight ps - i))" by simp
next
  fix ps :: params and i :: nat
  assume "has_key ps (Idx i)"
  then obtain v where v: "map_of ps (Idx i) = Some v" by (auto simp: has_key_def)
  have "map_of qs (Idx i) = Some v \<Longrightarrow> i < idx_weight qs" for qs
  proof (induction qs)
    case Nil
    then show ?case by simp
  next
    case (Cons a qs)
    obtain k w where a: "a = (k, w)" by (cases a)
    show ?case
    proof (cases "k = Idx i")
      case True
      then show ?thesis using a by (simp add: idx_weight_def)
    next
      case False
      then have "map_of qs (Idx i) = Some v" using Cons.prems a by simp
      then have "i < idx_weight qs" by (rule Cons.IH)
      then show ?thesis using a by (simp add: idx_weight_def)
    qed
  qed
  then have "i < idx_weight ps" using v by simp
  then show "((ps, Suc i), (ps, i)) \<in> measure (\<lambda>(ps, i). idx_weight ps - i)" by simp
qed

declare numeric_gap.simps [simp del]

text \<open>
  The re-indexing loop \<open>for (i--; i >= 0; i--)\<close> of \<open>mergeParams\<close>; the first argument
  is the number of indices still to move, so the index handled now is one less.
\<close>

fun offset_indices :: "nat \<Rightarrow> nat \<Rightarrow> params \<Rightarrow> params" where
  "offset_indices 0 o' ps = ps"
| "offset_indices (Suc i) o' ps =
     (let ps1 = AList.update (Idx (i + o')) (get_prop ps (Idx i)) ps;
          ps2 = (if i < o' then AList.delete (Idx i) ps1 else ps1)
      in offset_indices i o' ps2)"

text \<open>
  \<open>mergeParams(params, parent)\<close>. The parent is \<open>None\<close> when it is not an object
  (\<open>typeof parent !== 'object' || !parent\<close>).
\<close>

definition mergeParams :: "params \<Rightarrow> params option \<Rightarrow> params" where
  "mergeParams ps parent =
     (case parent of
        None \<Rightarrow> ps
      | Some par \<Rightarrow>
          (let obj = mixin [] par in
           if \<not> has_key ps (Idx 0) \<or> \<not> has_key par (Idx 0) then mixin obj ps
           else
             (let i = numeric_gap ps 0;
                  o' = numeric_gap par 0
              in mixin obj (offset_indices i o' ps))))"

text \<open>
  The captured numeric entries of a pattern are positional: the indices \<open>0 .. n - 1\<close>,
  with \<open>n > 0\<close>, and no other numeric index.
\<close>

definition positional :: "params \<Rightarrow> nat \<Rightarrow> bool" where
  "positional ps n =
     (0 < n \<and> list_all (\<lambda>j. has_key ps (Idx j)) [0..<n] \<and>
      list_all (\<lambda>k. case k of Idx j \<Rightarrow> j < n | Name _ \<Rightarrow> True) (map fst ps))"

section \<open>Request context, layers and the router\<close>

text \<open>
  The fields of the request context that the router reads or writes. A field that can be
  \<open>undefined\<close> is an option. \<open>query\<close> holds the query component that \<open>qs.parse\<close>
  is given; \<open>route\<close> holds the identity of the Route stored by the dispatch. The
  property \<open>next\<close>, which holds the continuation itself, is read by no code here and
  is left out, also where \<open>restore\<close> saves it.
\<close>

record session =
  url :: string
  baseUrl :: "string option"
  originalUrl :: "string option"
  params :: "params option"
  query :: "string option"
  route :: "nat option"
  step :: "nat option"

text \<open>
  What a handler does with its continuation: \<open>Some v\<close> when it calls \<open>next(v)\<close>
  (at once or later), \<open>None\<close> when it never does. It may change the context.
\<close>

type_synonym handler = "session \<Rightarrow> session \<times> jsval option"

text \<open>
  A Layer of \<open>./lib/layer\<close>, by the interface the router uses. \<open>layer_match path\<close> is
  what \<open>matchLayer(layer, path)\<close> returns (the result of \<open>layer.match\<close>, or the
  exception it threw); \<open>layer_params path\<close> and \<open>layer_path path\<close> are the properties
  \<open>params\<close> and \<open>path\<close> that this call leaves on the layer; \<open>layer_keys\<close> lists the
  \<open>name\<close> of every entry of \<open>layer.keys\<close>; \<open>layer_route\<close> is the Route, if any.
\<close>

record layer =
  layer_match :: "string \<Rightarrow> jsval"
  layer_params :: "string \<Rightarrow> params"
  layer_path :: "string \<Rightarrow> string"
  layer_keys :: "pkey list"
  layer_route :: "nat option"
  handle_request :: handler
  handle_error :: "jsval \<Rightarrow> handler"

text \<open>
  A parameter callback \<open>fn(session, res, paramCallback, paramVal, key.name)\<close>: it calls
  \<open>paramCallback(v)\<close>, throws \<open>v\<close>, or does neither.
\<close>

datatype cb_reaction = Cb_next jsval | Cb_throw jsval | Cb_stall

type_synonym param_fn = "session \<Rightarrow> jsval \<Rightarrow> pkey \<Rightarrow> session \<times> cb_reaction"

record router =
  caseSensitive :: bool
  mergeParams_opt :: bool
  router_params :: "pkey \<Rightarrow> param_fn list option"
  strict_opt :: bool
  stack :: "layer list"

section \<open>\<open>process_params\<close>\<close>

text \<open>The entry \<open>{error, match, value}\<close> kept in \<open>called[name]\<close>.\<close>

record pcalled =
  pc_error :: jsval
  pc_match :: jsval
  pc_value :: jsval

text \<open>What the router is seen to call: the events of a dispatch, in order.\<close>

datatype event = Param_called pkey jsval | Request_handled nat | Error_handled nat jsval

datatype pcb_result = Param_call jsval | Pcb_stalled | Pcb_threw

text \<open>
  \<open>paramCallback(err)\<close>; \<open>fns\<close> are the callbacks from \<open>paramIndex\<close> on. Reading
  \<open>session.params[key.name]\<close> throws a TypeError when \<open>session.params\<close> is not an
  object. \<open>Param_call v\<close>: \<open>param(v)\<close> is called.
\<close>

fun paramCallback ::
  "param_fn list \<Rightarrow> pkey \<Rightarrow> jsval \<Rightarrow> pcalled \<Rightarrow> session \<Rightarrow> event list \<Rightarrow> jsval
     \<Rightarrow> pcalled \<times> session \<times> event list \<times> pcb_result" where
  "paramCallback fns name paramVal pc s evs err =
     (case params s of
        None \<Rightarrow> (pc, s, evs, Pcb_threw)
      | Some ps \<Rightarrow>
          (let pc1 = pc\<lparr>pc_value := get_prop ps name\<rparr> in
           if truthy err then (pc1\<lparr>pc_error := err\<rparr>, s, evs, Param_call err)
           else
             (case fns of
                [] \<Rightarrow> (pc1, s, evs, Param_call JUndefined)
              | fn # rest \<Rightarrow>
                  (case fn s paramVal name of
                     (s', Cb_next e) \<Rightarrow>
                       paramCallback rest name paramVal pc1 s' (evs @ [Param_called name paramVal]) e
                   | (s', Cb_throw e) \<Rightarrow>
                       paramCallback rest name paramVal pc1 s' (evs @ [Param_called name paramVal]) e
                   | (s', Cb_stall) \<Rightarrow>
                       (pc1, s', evs @ [Param_called name paramVal], Pcb_stalled)))))"

declare paramCallback.simps [simp del]

text \<open>
  The test \<open>paramCalled && (paramCalled.match === paramVal || (paramCalled.error &&
  paramCalled.error !== 'route'))\<close>: the cached entry, when it is to be reused.
\<close>

definition cached :: "pcalled option \<Rightarrow> jsval \<Rightarrow> pcalled option" where
  "cached paramCalled paramVal =
     (case paramCalled of
        None \<Rightarrow> None
      | Some pc \<Rightarrow>
          if pc_match pc = paramVal \<or> (truthy (pc_error pc) \<and> pc_error pc \<noteq> JStr ''route'')
          then Some pc else None)"

datatype presult = P_done jsval | P_stalled | P_threw

text \<open>\<open>param(err)\<close>; \<open>ks\<close> are the keys from \<open>i\<close> on. \<open>P_done v\<close>: \<open>done(v)\<close> is called.\<close>

fun param ::
  "(pkey \<Rightarrow> param_fn list option) \<Rightarrow> pkey list \<Rightarrow> (pkey \<rightharpoonup> pcalled) \<Rightarrow> session \<Rightarrow> event list
     \<Rightarrow> jsval \<Rightarrow> (pkey \<rightharpoonup> pcalled) \<times> session \<times> event list \<times> presult" where
  "param reg ks called s evs err =
     (if truthy err then (called, s, evs, P_done err)
      else
        (case ks of
           [] \<Rightarrow> (called, s, evs, P_done JUndefined)
         | name # rest \<Rightarrow>
             (case params s of
                None \<Rightarrow> (called, s, evs, P_threw)
              | Some ps \<Rightarrow>
                  (let paramVal = get_prop ps name in
                   case reg name of
                     None \<Rightarrow> param reg rest called s evs JUndefined
                   | Some paramCallbacks \<Rightarrow>
                       if paramVal = JUndefined then param reg rest called s evs JUndefined
                       else
                         (case cached (called name) paramVal of
                            Some pc \<Rightarrow>
                              param reg rest called
                                (s\<lparr>params := Some (AList.update name (pc_value pc) ps)\<rparr>) evs
                                (pc_error pc)
                          | None \<Rightarrow>
                              (case paramCallback paramCallbacks name paramVal
                                      \<lparr>pc_error = JNull, pc_match = paramVal, pc_value = paramVal\<rparr>
                                      s evs JUndefined of
                                 (pc', s', evs', Param_call e) \<Rightarrow>
                                   param reg rest (called(name \<mapsto> pc')) s' evs' e
                               | (pc', s', evs', Pcb_stalled) \<Rightarrow>
                                   (called(name \<mapsto> pc'), s', evs', P_stalled)
                               | (pc', s', evs', Pcb_threw) \<Rightarrow>
                                   (called(name \<mapsto> pc'), s', evs', P_threw)))))))"

declare param.simps [simp del]

definition process_params ::
  "(pkey \<Rightarrow> param_fn list option) \<Rightarrow> layer \<Rightarrow> (pkey \<rightharpoonup> pcalled) \<Rightarrow> session \<Rightarrow> event list
     \<Rightarrow> (pkey \<rightharpoonup> pcalled) \<times> session \<times> event list \<times> presult" where
  "process_params reg l called s evs =
     (if layer_keys l = [] then (called, s, evs, P_done JUndefined)
      else param reg (layer_keys l) called s evs JUndefined)"

section \<open>\<open>handle\<close> and its continuation \<open>next\<close>\<close>

text \<open>
  \<open>parseUrl\<close> (Node's \<open>url.parse\<close>) is a parameter: \<open>None\<close> when it throws, else
  the \<open>pathname\<close> and \<open>query\<close> of the result, each of which may be \<open>null\<close>.
\<close>

record url_parts =
  pathname :: "string option"
  url_query :: "string option"

type_synonym parser = "string \<Rightarrow> url_parts option"

definition getPathname :: "parser \<Rightarrow> session \<Rightarrow> string option" where
  "getPathname parseUrl s = (case parseUrl (url s) of None \<Rightarrow> None | Some p \<Rightarrow> pathname p)"

text \<open>The variables of \<open>handle\<close> that \<open>next\<close> and \<open>trim_prefix\<close> assign, with the context.\<close>

record hstate =
  idx :: nat
  removed :: string
  slashAdded :: bool
  paramcalled :: "pkey \<rightharpoonup> pcalled"
  sess :: session

text \<open>
  The variables of \<open>handle\<close> that are assigned once: \<open>parentParams\<close>, \<open>parentUrl\<close>,
  and the values of \<open>baseUrl\<close> and \<open>params\<close> that \<open>restore\<close> saved.
\<close>

record hconst =
  parentParams :: "params option"
  parentUrl :: string
  saved_baseUrl :: "string option"
  saved_params :: "params option"

text \<open>
  The function that \<open>restore(callback, session, 'baseUrl', 'next', 'params')\<close> returns
  puts the saved values back before it calls \<open>callback\<close>.
\<close>

definition restore :: "hconst \<Rightarrow> session \<Rightarrow> session" where
  "restore hc s = s\<lparr>baseUrl := saved_baseUrl hc, params := saved_params hc\<rparr>"

text \<open>The head of \<open>next\<close>: remove the added slash, put the removed prefix back.\<close>

definition restore_url :: "hconst \<Rightarrow> hstate \<Rightarrow> hstate" where
  "restore_url hc st =
     (let st1 = (if slashAdded st
                 then st\<lparr>sess := (sess st)\<lparr>url := drop 1 (url (sess st))\<rparr>, slashAdded := False\<rparr>
                 else st)
      in if removed st1 \<noteq> []
         then st1\<lparr>sess := (sess st1)\<lparr>baseUrl := Some (parentUrl hc),
                                       url := removed st1 @ url (sess st1)\<rparr>,
                  removed := []\<rparr>
         else st1)"

text \<open>
  One turn of the loop \<open>while (match !== true && idx < stack.length)\<close> for the layer
  \<open>l\<close> just read, \<open>i\<close> being \<open>idx\<close> after \<open>idx++\<close>: the values of
  \<open>layerError\<close> and \<open>match\<close> at the end of the turn (each \<open>continue\<close> ends the turn).
  \<open>stp\<close> is \<open>session.step\<close>; a comparison with \<open>undefined\<close> is false.
\<close>

definition scan_turn :: "nat option \<Rightarrow> nat \<Rightarrow> jsval \<Rightarrow> layer \<Rightarrow> string \<Rightarrow> jsval \<times> jsval" where
  "scan_turn stp i layerError l path =
     (let m = layer_match l path
      in if (case stp of None \<Rightarrow> False | Some n \<Rightarrow> i < n) then (layerError, m)
         else
           (let layerError' = (if \<not> is_boolean m then js_or layerError m else layerError)
            in if m \<noteq> JBool True then (layerError', m)
               else if layer_route l = None then (layerError', m)
               else if truthy layerError' then (layerError', JBool False)
               else (layerError', m)))"

text \<open>
  The loop, from the values of \<open>idx\<close>, \<open>layerError\<close>, \<open>match\<close> and \<open>layer\<close> to
  their values when it ends (\<open>route\<close> is \<open>layer.route\<close> throughout).
\<close>

function scan ::
  "layer list \<Rightarrow> string \<Rightarrow> nat option \<Rightarrow> nat \<Rightarrow> jsval \<Rightarrow> jsval \<Rightarrow> layer option
     \<Rightarrow> nat \<times> jsval \<times> jsval \<times> layer option" where
  "scan stk path stp i layerError m l =
     (if m \<noteq> JBool True \<and> i < length stk then
        (case scan_turn stp (Suc i) layerError (stk ! i) path of
           (layerError', m') \<Rightarrow> scan stk path stp (Suc i) layerError' m' (Some (stk ! i)))
      else (i, layerError, m, l))"
  by pat_completeness auto
termination
  by (relation "measure (\<lambda>(stk, path, stp, i, layerError, m, l). length stk - i)") auto

declare scan.simps [simp del]

text \<open>
  How a call of \<open>next\<close> ends: \<open>defer(done, v)\<close>, \<open>done(v)\<close> called directly,
  \<open>self.process_params\<close> for the matched layer (with \<open>layerError\<close> and \<open>path\<close>), or a
  TypeError from reading a property of an undefined \<open>layer\<close>.
\<close>

datatype next_outcome = Defer_done jsval | Call_done jsval | Matched layer jsval string | Next_threw

definition "next" :: "parser \<Rightarrow> router \<Rightarrow> hconst \<Rightarrow> hstate \<Rightarrow> jsval \<Rightarrow> hstate \<times> next_outcome" where
  "next parseUrl r hc st err =
     (let layerError = (if err = JStr ''route'' then JNull else err);
          st1 = restore_url hc st
      in if layerError = JStr ''router'' then (st1, Defer_done JNull)
         else if length (stack r) \<le> idx st1 then (st1, Defer_done layerError)
         else
           (case getPathname parseUrl (sess st1) of
              None \<Rightarrow> (st1\<lparr>sess := restore hc (sess st1)\<rparr>, Call_done layerError)
            | Some path \<Rightarrow>
                (case scan (stack r) path (step (sess st1)) (idx st1) layerError JUndefined None of
                   (i, layerError', m, lo) \<Rightarrow>
                     (let st2 = st1\<lparr>idx := i, sess := (sess st1)\<lparr>step := Some i\<rparr>\<rparr>
                      in if m \<noteq> JBool True
                         then (st2\<lparr>sess := restore hc (sess st2)\<rparr>, Call_done layerError')
                         else
                           (case lo of
                              None \<Rightarrow> (st2, Next_threw)
                            | Some l \<Rightarrow>
                                (let s3 = (if layer_route l \<noteq> None
                                           then (sess st2)\<lparr>route := layer_route l\<rparr>
                                           else sess st2);
                                     s4 = s3\<lparr>params :=
                                            Some (if mergeParams_opt r
                                                  then mergeParams (layer_params l path) (parentParams hc)
                                                  else layer_params l path)\<rparr>
                                 in (st2\<lparr>sess := s4\<rparr>, Matched l layerError' path)))))))"

text \<open>
  What follows the parameters of a matched layer: \<open>next(v)\<close> again,
  \<open>layer.handle_error(v, ...)\<close> or \<open>layer.handle_request(...)\<close>.
\<close>

datatype invocation = Renext jsval | Invoke_error jsval | Invoke_request

definition trim_prefix :: "hconst \<Rightarrow> hstate \<Rightarrow> jsval \<Rightarrow> string \<Rightarrow> string \<Rightarrow> hstate \<times> invocation" where
  "trim_prefix hc st layerError layerPath path =
     (let call = (if truthy layerError then Invoke_error layerError else Invoke_request)
      in if layerPath \<noteq> [] then
           (if length layerPath < length path \<and> path ! length layerPath \<noteq> CHR ''/''
            then (st, Renext layerError)
            else
              (let u1 = drop (length layerPath) (url (sess st));
                   synth = (case u1 of [] \<Rightarrow> True | c # _ \<Rightarrow> c \<noteq> CHR ''/'');
                   u2 = (if synth then CHR ''/'' # u1 else u1);
                   b = parentUrl hc @
                         (if last layerPath = CHR ''/'' then butlast layerPath else layerPath)
               in (st\<lparr>removed := layerPath,
                      slashAdded := (if synth then True else slashAdded st),
                      sess := (sess st)\<lparr>url := u2, baseUrl := Some b\<rparr>\<rparr>,
                   call)))
         else (st, call))"

text \<open>The callback that \<open>next\<close> gives to \<open>process_params\<close>.\<close>

definition params_done ::
  "hconst \<Rightarrow> hstate \<Rightarrow> layer \<Rightarrow> jsval \<Rightarrow> string \<Rightarrow> string \<Rightarrow> jsval \<Rightarrow> hstate \<times> invocation" where
  "params_done hc st l layerError layerPath path err =
     (if truthy err then (st, Renext (js_or layerError err))
      else if layer_route l \<noteq> None then (st, Invoke_request)
      else trim_prefix hc st layerError layerPath path)"

text \<open>
  How a dispatch ends: the terminal callback is called with \<open>v\<close>, deferred or
  directly; or a handler never calls its continuation; or a TypeError escapes.
\<close>

datatype completion = Deferred | Direct

datatype result = Done completion jsval | Stalled | Threw

text \<open>
  From the match of a layer to the next call of \<open>next\<close> (\<open>Inr v\<close> for \<open>next(v)\<close>) or
  to the end of the dispatch. The matched layer is \<open>stack[idx - 1]\<close>.
\<close>

definition dispatch_layer ::
  "router \<Rightarrow> hconst \<Rightarrow> hstate \<Rightarrow> layer \<Rightarrow> jsval \<Rightarrow> string \<Rightarrow> event list
     \<Rightarrow> hstate \<times> event list \<times> (result + jsval)" where
  "dispatch_layer r hc st l layerError path evs =
     (let layerPath = layer_path l path in
      case process_params (router_params r) l (paramcalled st) (sess st) evs of
        (called, s, evs1, pres) \<Rightarrow>
          (let st1 = st\<lparr>paramcalled := called, sess := s\<rparr> in
           case pres of
             P_stalled \<Rightarrow> (st1, evs1, Inl Stalled)
           | P_threw \<Rightarrow> (st1, evs1, Inl Threw)
           | P_done err \<Rightarrow>
               (case params_done hc st1 l layerError layerPath path err of
                  (st2, Renext e) \<Rightarrow> (st2, evs1, Inr e)
                | (st2, Invoke_request) \<Rightarrow>
                    (case handle_request l (sess st2) of
                       (s', None) \<Rightarrow>
                         (st2\<lparr>sess := s'\<rparr>, evs1 @ [Request_handled (idx st2 - 1)], Inl Stalled)
                     | (s', Some e) \<Rightarrow>
                         (st2\<lparr>sess := s'\<rparr>, evs1 @ [Request_handled (idx st2 - 1)], Inr e))
                | (st2, Invoke_error le) \<Rightarrow>
                    (case handle_error l le (sess st2) of
                       (s', None) \<Rightarrow>
                         (st2\<lparr>sess := s'\<rparr>, evs1 @ [Error_handled (idx st2 - 1) le], Inl Stalled)
                     | (s', Some e) \<Rightarrow>
                         (st2\<lparr>sess := s'\<rparr>, evs1 @ [Error_handled (idx st2 - 1) le], Inr e)))))"

text \<open>
  The dispatch from one call \<open>next(err)\<close> to its end, every handler answering as its
  model says; \<open>evs\<close> are the events so far. A deferred \<open>done\<close> restores the context
  when it runs.
\<close>

function run ::
  "parser \<Rightarrow> router \<Rightarrow> hconst \<Rightarrow> hstate \<Rightarrow> event list \<Rightarrow> jsval \<Rightarrow> hstate \<times> event list \<times> result" where
  "run parseUrl r hc st evs err =
     (case next parseUrl r hc st err of
        (st1, Defer_done v) \<Rightarrow> (st1\<lparr>sess := restore hc (sess st1)\<rparr>, evs, Done Deferred v)
      | (st1, Call_done v) \<Rightarrow> (st1, evs, Done Direct v)
      | (st1, Next_threw) \<Rightarrow> (st1, evs, Threw)
      | (st1, Matched l layerError path) \<Rightarrow>
          (case dispatch_layer r hc st1 l layerError path evs of
             (st2, evs2, Inl res) \<Rightarrow> (st2, evs2, res)
           | (st2, evs2, Inr e) \<Rightarrow> run parseUrl r hc st2 evs2 e))"
  by pat_completeness auto
termination
proof (relation "measure (\<lambda>(parseUrl, r, hc, st, evs, err). length (stack r) - idx st)")
  show "wf (measure (\<lambda>(parseUrl, r, hc, st, evs, err). length (stack r) - idx st))" by simp
next
  fix parseUrl :: parser and r :: router and hc :: hconst and st :: hstate
    and evs :: "event list" and err :: jsval and st1 out l layerError path st2 z evs2 w e
  assume nx: "(st1, out) = next parseUrl r hc st err" "out = Matched l layerError path"
    and dl: "(st2, z) = dispatch_layer r hc st1 l layerError path evs" "(evs2, w) = z" "w = Inr e"
  have scan_mono: "scan stk p stp i le m lo = (i', le', m', lo') \<Longrightarrow>
      i \<le> i' \<and> (m \<noteq> JBool True \<and> i < length stk \<longrightarrow> i < i')"
    for stk p stp i le m lo i' le' m' lo'
  proof (induction stk p stp i le m lo rule: scan.induct)
    case (1 stk path stp i layerError m l)
    show ?case
    proof (cases "m \<noteq> JBool True \<and> i < length stk")
      case False
      then have "scan stk path stp i layerError m l = (i, layerError, m, l)"
        by (subst scan.simps) auto
      then show ?thesis using "1.prems" False by auto
    next
      case True
      obtain ea ma where t: "scan_turn stp (Suc i) layerError (stk ! i) path = (ea, ma)"
        by (cases "scan_turn stp (Suc i) layerError (stk ! i) path")
      have "scan stk path stp i layerError m l = scan stk path stp (Suc i) ea ma (Some (stk ! i))"
        using True t by (subst scan.simps) auto
      then have "scan stk path stp (Suc i) ea ma (Some (stk ! i)) = (i', le', m', lo')"
        using "1.prems" by simp
      then have "Suc i \<le> i'" using "1.IH"[OF True t[symmetric]] by simp
      then show ?thesis by simp
    qed
  qed
  have ru: "idx (restore_url hc st) = idx st" by (simp add: restore_url_def Let_def)
  have a: "idx st < idx st1 \<and> idx st < length (stack r)"
    using nx[symmetric] scan_mono ru
    by (auto simp: next_def Let_def split: if_splits option.splits prod.splits)
  have b: "idx st2 = idx st1"
    using dl[symmetric]
    by (auto simp: dispatch_layer_def params_done_def trim_prefix_def Let_def
             split: if_splits option.splits prod.splits presult.splits invocation.splits list.splits)
  show "((parseUrl, r, hc, st2, evs2, e), (parseUrl, r, hc, st, evs, err))
          \<in> measure (\<lambda>(parseUrl, r, hc, st, evs, err). length (stack r) - idx st)"
    using a b by (simp add: diff_less_mono2)
qed

declare run.simps [simp del]

datatype js_error = TypeError string | Parse_error

text \<open>
  \<open>handle(session, res, callback)\<close>; \<open>callback\<close> says whether the argument is given.
  A throw of \<open>parseUrl(session.url)\<close> on the way to \<open>qs.parse\<close> escapes.
\<close>

definition handle ::
  "parser \<Rightarrow> router \<Rightarrow> bool \<Rightarrow> session \<Rightarrow> js_error + (session \<times> event list \<times> result)" where
  "handle parseUrl r callback s =
     (if \<not> callback then Inl (TypeError ''argument callback is required'')
      else
        (let hc = \<lparr>parentParams = params s,
                   parentUrl = (case baseUrl s of None \<Rightarrow> [] | Some b \<Rightarrow> b),
                   saved_baseUrl = baseUrl s,
                   saved_params = params s\<rparr>;
             s1 = s\<lparr>baseUrl := Some (parentUrl hc),
                    originalUrl := (case originalUrl s of
                                      None \<Rightarrow> Some (url s)
                                    | Some ou \<Rightarrow> if ou = [] then Some (url s) else Some ou)\<rparr>
         in case parseUrl (url s1) of
              None \<Rightarrow> Inl Parse_error
            | Some parts \<Rightarrow>
                (case run parseUrl r hc
                        \<lparr>idx = 0, removed = [], slashAdded = False, paramcalled = Map.empty,
                         sess = s1\<lparr>query := url_query parts\<rparr>\<rparr> [] JUndefined of
                   (st, evs, res) \<Rightarrow> Inr (sess st, evs, res))))"

text \<open>
  A router mounted as a handler, \<open>router(session, res, next)\<close>: its terminal callback is
  the continuation of the layer that holds it. An exception is left to the layer.
\<close>

definition router_handler :: "parser \<Rightarrow> router \<Rightarrow> handler" where
  "router_handler parseUrl r s =
     (case handle parseUrl r True s of
        Inr (s', evs, Done c v) \<Rightarrow> (s', Some v)
      | Inr (s', evs, res) \<Rightarrow> (s', None)
      | Inl e \<Rightarrow> (s, None))"

section \<open>\<open>use\<close>\<close>

text \<open>The arguments of \<open>use\<close>: functions, arrays of arguments, strings, or nothing.\<close>

datatype 'f arg = A_fn 'f | A_array "'f arg list" | A_str string | A_undefined

fun is_fn :: "'f arg \<Rightarrow> bool" where
  "is_fn (A_fn _) = True"
| "is_fn _ = False"

text \<open>\<open>while (Array.isArray(arg) && arg.length !== 0) arg = arg[0]\<close>\<close>

fun first_leaf :: "'f arg \<Rightarrow> 'f arg" where
  "first_leaf (A_array (x # xs)) = first_leaf x"
| "first_leaf a = a"

text \<open>\<open>flatten\<close> of array-flatten: the leaves of nested arrays, in order.\<close>

fun flatten :: "'f arg list \<Rightarrow> 'f arg list" where
  "flatten [] = []"
| "flatten (A_array xs # ys) = flatten xs @ flatten ys"
| "flatten (x # ys) = x # flatten ys"

record layer_opts =
  opt_sensitive :: bool
  opt_strict :: bool
  opt_end :: bool

text \<open>The offset and the path that \<open>use\<close> takes from its first argument.\<close>

definition use_path :: "'f arg list \<Rightarrow> nat \<times> 'f arg" where
  "use_path args =
     (let handler = (case args of [] \<Rightarrow> A_undefined | a # _ \<Rightarrow> a)
      in if \<not> is_fn handler \<and> \<not> is_fn (first_leaf handler) then (1, handler)
         else (0, A_str ''/''))"

text \<open>
  The loop over \<open>callbacks\<close>. \<open>Layer\<close> is the constructor of \<open>./lib/layer\<close>, a
  parameter. The router is returned with the error: a throw does not undo the pushes.
\<close>

fun use_loop ::
  "('f arg \<Rightarrow> layer_opts \<Rightarrow> 'f \<Rightarrow> layer) \<Rightarrow> 'f arg \<Rightarrow> router \<Rightarrow> 'f arg list
     \<Rightarrow> router \<times> (js_error + unit)" where
  "use_loop Layer path r [] = (r, Inr ())"
| "use_loop Layer path r (A_fn fn # rest) =
     use_loop Layer path
       (r\<lparr>stack := stack r @
            [(Layer path \<lparr>opt_sensitive = caseSensitive r, opt_strict = False, opt_end = False\<rparr> fn)
               \<lparr>layer_route := None\<rparr>]\<rparr>)
       rest"
| "use_loop Layer path r (a # rest) =
     (r, Inl (TypeError ''argument handler must be a function''))"

definition use ::
  "('f arg \<Rightarrow> layer_opts \<Rightarrow> 'f \<Rightarrow> layer) \<Rightarrow> router \<Rightarrow> 'f arg list \<Rightarrow> router \<times> (js_error + unit)" where
  "use Layer r args =
     (case use_path args of
        (offset, path) \<Rightarrow>
          (let callbacks = flatten (drop offset args)
           in if callbacks = [] then (r, Inl (TypeError ''argument handler is required''))
              else use_loop Layer path r callbacks))"

section \<open>Examples\<close>

text \<open>
  A parser for request targets of the form path?query, to instantiate \<open>parseUrl\<close>:
  it never throws, and the pathname of a target with an empty path is \<open>null\<close>.
\<close>

definition ex_parseUrl :: parser where
  "ex_parseUrl u =
     (let p = takeWhile (\<lambda>c. c \<noteq> CHR ''?'') u
      in Some \<lparr>pathname = (if p = [] then None else Some p),
               url_query = (if length p < length u then Some (drop (Suc (length p)) u) else None)\<rparr>)"

text \<open>A fresh context for the target \<open>u\<close>, and a router with the stack \<open>stk\<close>.\<close>

definition ex_session :: "string \<Rightarrow> session" where
  "ex_session u = \<lparr>url = u, baseUrl = None, originalUrl = None, params = None, query = None,
                   route = None, step = None\<rparr>"

definition ex_router :: "layer list \<Rightarrow> router" where
  "ex_router stk = \<lparr>caseSensitive = False, mergeParams_opt = False, router_params = (\<lambda>_. None),
                    strict_opt = False, stack = stk\<rparr>"

text \<open>
  A layer as \<open>use(p, h)\<close> makes it, with a matcher that accepts the paths that start
  with \<open>p\<close>, and a layer as \<open>route(p)\<close> makes it, which accepts the path \<open>p\<close>.
  Neither captures a parameter; \<open>h\<close> is no error handler, so \<open>handle_error\<close>
  passes the error on.
\<close>

definition mw_layer :: "string \<Rightarrow> handler \<Rightarrow> layer" where
  "mw_layer p h =
     \<lparr>layer_match = (\<lambda>path. JBool (take (length p) path = p)),
      layer_params = (\<lambda>_. []), layer_path = (\<lambda>_. p), layer_keys = [], layer_route = None,
      handle_request = h, handle_error = (\<lambda>e s. (s, Some e))\<rparr>"

definition route_layer :: "string \<Rightarrow> nat \<Rightarrow> handler \<Rightarrow> layer" where
  "route_layer p n h =
     \<lparr>layer_match = (\<lambda>path. JBool (path = p)),
      layer_params = (\<lambda>_. []), layer_path = (\<lambda>_. p), layer_keys = [], layer_route = Some n,
      handle_request = h, handle_error = (\<lambda>e s. (s, Some e))\<rparr>"

text \<open>Handlers: call \<open>next()\<close>; call \<open>next(e)\<close>; answer and never call \<open>next\<close>.\<close>

definition pass :: handler where
  "pass s = (s, Some JUndefined)"

definition fail_with :: "jsval \<Rightarrow> handler" where
  "fail_with e s = (s, Some e)"

definition respond :: handler where
  "respond s = (s, None)"

text \<open>\<open>baseUrl + url\<close> is \<open>originalUrl\<close>.\<close>

definition reconstructs :: "session \<Rightarrow> bool" where
  "reconstructs s =
     (case (baseUrl s, originalUrl s) of (Some b, Some ou) \<Rightarrow> b @ url s = ou | _ \<Rightarrow> False)"

text \<open>The state and the constants of \<open>handle\<close> at its first \<open>next()\<close>, for a fresh context.\<close>

definition ex_state :: "string \<Rightarrow> hstate" where
  "ex_state u = \<lparr>idx = 0, removed = [], slashAdded = False, paramcalled = Map.empty,
                 sess = (ex_session u)\<lparr>baseUrl := Some [], originalUrl := Some u\<rparr>\<rparr>"

definition ex_const :: hconst where
  "ex_const = \<lparr>parentParams = None, parentUrl = [], saved_baseUrl = None, saved_params = None\<rparr>"

text \<open>
  A router that fails in its first layer and misses in two more, mounted in a router
  whose second layer is route-backed.
\<close>

definition inner_router :: router where
  "inner_router =
     ex_router [mw_layer [] (fail_with (JObj 7)), mw_layer ''/x'' pass, mw_layer ''/y'' pass]"

definition outer_router :: router where
  "outer_router =
     ex_router [mw_layer [] (router_handler ex_parseUrl inner_router), route_layer ''/a'' 1 pass]"

text \<open>Two layers mounted at the root; the second answers.\<close>

definition two_layer_router :: router where
  "two_layer_router = ex_router [mw_layer [] pass, mw_layer [] respond]"

text \<open>
  A layer that captures \<open>id = v\<close> on every path, and a router with one callback for
  \<open>id\<close>, which calls its continuation with no error.
\<close>

definition id_layer :: "string \<Rightarrow> handler \<Rightarrow> layer" where
  "id_layer v h =
     \<lparr>layer_match = (\<lambda>path. JBool True),
      layer_params = (\<lambda>_. [(Name ''id'', JStr v)]), layer_path = (\<lambda>_. []),
      layer_keys = [Name ''id''], layer_route = None,
      handle_request = h, handle_error = (\<lambda>e s. (s, Some e))\<rparr>"

definition id_callback :: param_fn where
  "id_callback s v k = (s, Cb_next JUndefined)"

definition id_router :: "layer list \<Rightarrow> router" where
  "id_router stk =
     \<lparr>caseSensitive = False, mergeParams_opt = False,
      router_params = (\<lambda>k. if k = Name ''id'' then Some [id_callback] else None),
      strict_opt = False, stack = stk\<rparr>"

text \<open>A context whose parameters hold \<open>id = v\<close>.\<close>

definition id_session :: "string \<Rightarrow> session" where
  "id_session v = (ex_session ''/'')\<lparr>params := Some [(Name ''id'', JStr v)]\<rparr>"

text \<open>
  Every handler of the stack calls its continuation, and so does every parameter
  callback, which also leaves \<open>session.params\<close> an object.
\<close>

definition responsive :: "router \<Rightarrow> bool" where
  "responsive r =
     ((\<forall>l \<in> set (stack r).
         (\<forall>s. snd (handle_request l s) \<noteq> None) \<and> (\<forall>e s. snd (handle_error l e s) \<noteq> None)) \<and>
      (\<forall>name fns. router_params r name = Some fns \<longrightarrow>
         (\<forall>fn \<in> set fns. \<forall>s v.
            snd (fn s v name) \<noteq> Cb_stall \<and>
            (params s \<noteq> None \<longrightarrow> params (fst (fn s v name)) \<noteq> None))))"

text \<open>A handler is called, as opposed to \<open>next\<close>.\<close>

fun invokes :: "invocation \<Rightarrow> bool" where
  "invokes (Renext _) = False"
| "invokes (Invoke_error _) = True"
| "invokes Invoke_request = True"

section \<open>Merging parameters\<close>

lemma map_of_mixin_keys:
  "map_of (mixin_keys a b ks) k = (if k \<in> set ks then Some (get_prop b k) else map_of a k)"
  by (induction ks arbitrary: a) (auto simp: update_conv')

lemma map_of_mixin: "map_of (mixin a b) = map_of a ++ map_of b"
proof
  fix k
  show "map_of (mixin a b) k = (map_of a ++ map_of b) k"
  proof (cases "map_of b k")
    case None
    then have "k \<notin> set (map fst b)" by (simp add: map_of_eq_None_iff)
    then show ?thesis using None by (simp add: mixin_def map_of_mixin_keys map_add_def)
  next
    case (Some v)
    then have "k \<in> set (map fst b)" by (metis map_of_eq_None_iff option.distinct(1) set_map)
    then show ?thesis using Some by (simp add: mixin_def map_of_mixin_keys map_add_def get_prop_def)
  qed
qed

lemma map_of_offset_indices_Idx:
  "map_of (offset_indices n o' ps) (Idx j) =
     (if o' \<le> j \<and> j < n + o' then Some (get_prop ps (Idx (j - o')))
      else if j < o' \<and> j < n then None else map_of ps (Idx j))"
proof (induction n arbitrary: ps)
  case 0
  then show ?case by auto
next
  case (Suc n)
  show ?case
    by (auto simp: Suc.IH Let_def update_conv' delete_conv' get_prop_def)
qed

lemma map_of_offset_indices_Name:
  "map_of (offset_indices n o' ps) (Name s) = map_of ps (Name s)"
  by (induction n arbitrary: ps) (auto simp: Let_def update_conv' delete_conv')

lemma positional_has_key: "positional ps n \<Longrightarrow> has_key ps (Idx j) = (j < n)"
proof
  assume p: "positional ps n" and h: "has_key ps (Idx j)"
  from h have "Idx j \<in> set (map fst ps)"
    by (metis has_key_def map_of_eq_None_iff set_map)
  with p show "j < n" by (fastforce simp: positional_def list_all_iff)
next
  assume "positional ps n" and "j < n"
  then show "has_key ps (Idx j)" by (simp add: positional_def list_all_iff)
qed

lemma numeric_gap_positional:
  "positional ps n \<Longrightarrow> i \<le> n \<Longrightarrow> numeric_gap ps i = n"
proof (induction ps i rule: numeric_gap.induct)
  case (1 ps i)
  show ?case
  proof (cases "i < n")
    case True
    then have "has_key ps (Idx i)" using "1.prems" by (simp add: positional_has_key)
    then show ?thesis using "1.IH" "1.prems" True by (simp add: numeric_gap.simps[of ps i])
  next
    case False
    then have "\<not> has_key ps (Idx i)" using "1.prems" by (simp add: positional_has_key)
    moreover have "i = n" using "1.prems" False by simp
    ultimately show ?thesis by (simp add: numeric_gap.simps[of ps n])
  qed
qed

text \<open>
  When the numeric keys of the layer's parameters are exactly \<open>0 .. n - 1\<close> and those
  of the parent's exactly \<open>0 .. m - 1\<close>, the merged object holds the parent's at
  \<open>0 .. m - 1\<close> and the layer's at \<open>m .. m + n - 1\<close>.
\<close>

lemma mergeParams_gap_free:
  assumes "positional ps n" and "positional par m"
  shows "map_of (mergeParams ps (Some par)) (Idx j) =
           (if j < m then map_of par (Idx j)
            else if j < m + n then map_of ps (Idx (j - m)) else None) \<and>
         map_of (mergeParams ps (Some par)) (Name s) = (map_of par ++ map_of ps) (Name s)"
proof -
  have hk: "has_key ps (Idx i) = (i < n)" "has_key par (Idx i) = (i < m)" for i
    using assms by (simp_all add: positional_has_key)
  have pos: "0 < n" "0 < m" using assms by (simp_all add: positional_def)
  have gaps: "numeric_gap ps 0 = n" "numeric_gap par 0 = m"
    using assms by (simp_all add: numeric_gap_positional)
  have mp: "map_of (mergeParams ps (Some par)) = map_of par ++ map_of (offset_indices n m ps)"
    using pos by (simp add: mergeParams_def Let_def map_of_mixin hk gaps)
  have none: "map_of ps (Idx i) = None" if "\<not> i < n" for i
    using hk(1)[of i] that by (simp add: has_key_def)
  have some: "Some (get_prop ps (Idx i)) = map_of ps (Idx i)" if "i < n" for i
    using hk(1)[of i] that by (auto simp: has_key_def get_prop_def)
  have nonep: "map_of par (Idx i) = None" if "\<not> i < m" for i
    using hk(2)[of i] that by (simp add: has_key_def)
  have a: "map_of (mergeParams ps (Some par)) (Idx j) =
           (if j < m then map_of par (Idx j)
            else if j < m + n then map_of ps (Idx (j - m)) else None)"
  proof (cases "j < m")
    case True
    then show ?thesis by (simp add: mp map_add_def map_of_offset_indices_Idx none)
  next
    case False
    show ?thesis
    proof (cases "j < m + n")
      case True
      then have "j - m < n" using False by simp
      then show ?thesis using False True
        by (simp add: mp map_add_def map_of_offset_indices_Idx some[symmetric] add.commute)
    next
      case False
      then show ?thesis using \<open>\<not> j < m\<close>
        by (simp add: mp map_add_def map_of_offset_indices_Idx none nonep add.commute)
    qed
  qed
  have c: "map_of (mergeParams ps (Some par)) (Name s) = (map_of par ++ map_of ps) (Name s)"
    by (simp add: mp map_add_def map_of_offset_indices_Name)
  show ?thesis using a c by blast
qed

lemma numeric_gap_has_key:
  "i \<le> j \<Longrightarrow> j < numeric_gap ps i \<Longrightarrow> has_key ps (Idx j)"
proof (induction ps i rule: numeric_gap.induct)
  case (1 ps i)
  show ?case
  proof (cases "has_key ps (Idx i)")
    case True
    show ?thesis
    proof (cases "i = j")
      case True
      with \<open>has_key ps (Idx i)\<close> show ?thesis by simp
    next
      case False
      then have "Suc i \<le> j" using "1.prems" by simp
      moreover have "j < numeric_gap ps (Suc i)"
        using "1.prems" True by (simp add: numeric_gap.simps[of ps i])
      ultimately show ?thesis using "1.IH" True by simp
    qed
  next
    case False
    then show ?thesis using "1.prems" by (simp add: numeric_gap.simps[of ps i])
  qed
qed

text \<open>
  C7 as stated fails. The parent holds \<open>0 = "a"\<close> and \<open>2 = "c"\<close>, the layer
  \<open>0 = "x"\<close> and \<open>1 = "y"\<close>: the loop \<open>while (o in parent) o++\<close> stops at the
  first missing index, \<open>1\<close>, not past the highest, so the layer's entries land at
  \<open>1\<close> and \<open>2\<close> and the parent's \<open>"c"\<close> is overwritten. When the parent holds
  \<open>1 = "c"\<close> only, \<open>0 in parent\<close> fails, the plain merge is taken, and the layer's
  \<open>1 = "y"\<close> replaces it.
\<close>

theorem mergeParams_gap_counterexample:
  "mergeParams [(Idx 0, JStr ''x''), (Idx 1, JStr ''y'')]
       (Some [(Idx 0, JStr ''a''), (Idx 2, JStr ''c'')]) =
     [(Idx 0, JStr ''a''), (Idx 2, JStr ''y''), (Idx 1, JStr ''x'')] \<and>
   mergeParams [(Idx 0, JStr ''x''), (Idx 1, JStr ''y'')] (Some [(Idx 1, JStr ''c'')]) =
     [(Idx 1, JStr ''y''), (Idx 0, JStr ''x'')]"
  by code_simp

text \<open>
  C7, amended. With \<open>mergeParams\<close>, when the layer's parameters and the parent's both
  hold the index \<open>0\<close>: the layer's entries up to its first missing index are found in
  the merged object offset by the parent's first missing index; a parent's entry below
  that index is kept where the layer holds no entry of its own at it beyond its leading
  ones; the named entries are the union, the layer's taking precedence. When the numeric
  keys of the two are exactly \<open>0 .. n - 1\<close> and \<open>0 .. m - 1\<close>, these first missing
  indices are \<open>n\<close> and \<open>m\<close>, and the merged object holds the parent's entries at
  \<open>0 .. m - 1\<close>, the layer's at \<open>m .. m + n - 1\<close>, and no other numeric entry.
\<close>

theorem mergeParams_offsets_past_first_gap:
  assumes "has_key ps (Idx 0)" and "has_key par (Idx 0)"
  shows "(\<forall>j < numeric_gap ps 0.
            map_of (mergeParams ps (Some par)) (Idx (numeric_gap par 0 + j)) = map_of ps (Idx j)) \<and>
         (\<forall>j < numeric_gap par 0. j < numeric_gap ps 0 \<or> \<not> has_key ps (Idx j) \<longrightarrow>
            map_of (mergeParams ps (Some par)) (Idx j) = map_of par (Idx j)) \<and>
         (\<forall>s. map_of (mergeParams ps (Some par)) (Name s) = (map_of par ++ map_of ps) (Name s)) \<and>
         (positional ps n \<and> positional par m \<longrightarrow>
            numeric_gap ps 0 = n \<and> numeric_gap par 0 = m \<and>
            (\<forall>j. map_of (mergeParams ps (Some par)) (Idx j) =
                   (if j < m then map_of par (Idx j)
                    else if j < m + n then map_of ps (Idx (j - m)) else None)))"
proof -
  let ?n = "numeric_gap ps 0" and ?o = "numeric_gap par 0"
  have mp: "map_of (mergeParams ps (Some par)) = map_of par ++ map_of (offset_indices ?n ?o ps)"
    using assms by (simp add: mergeParams_def Let_def map_of_mixin)
  have a: "map_of (mergeParams ps (Some par)) (Idx (?o + j)) = map_of ps (Idx j)" if "j < ?n" for j
  proof -
    have "has_key ps (Idx j)" using that numeric_gap_has_key[of 0 j ps] by simp
    then obtain v where v: "map_of ps (Idx j) = Some v" by (auto simp: has_key_def)
    then have "get_prop ps (Idx j) = v" by (simp add: get_prop_def)
    then show ?thesis using that v
      by (simp add: mp map_add_def map_of_offset_indices_Idx add.commute)
  qed
  have b: "map_of (mergeParams ps (Some par)) (Idx j) = map_of par (Idx j)"
    if "j < ?o" and "j < ?n \<or> \<not> has_key ps (Idx j)" for j
    using that by (auto simp: mp map_add_def map_of_offset_indices_Idx has_key_def)
  have c: "map_of (mergeParams ps (Some par)) (Name s) = (map_of par ++ map_of ps) (Name s)" for s
    by (simp add: mp map_add_def map_of_offset_indices_Name)
  have d: "numeric_gap ps 0 = n \<and> numeric_gap par 0 = m \<and>
            (\<forall>j. map_of (mergeParams ps (Some par)) (Idx j) =
                   (if j < m then map_of par (Idx j)
                    else if j < m + n then map_of ps (Idx (j - m)) else None))"
    if "positional ps n" and "positional par m"
    using that mergeParams_gap_free[OF that] by (simp add: numeric_gap_positional)
  show ?thesis using a b c d by blast
qed

text \<open>The parent captured \<open>0 = "a"\<close>, the layer \<open>0 = "b"\<close>: both are kept.\<close>

theorem mergeParams_offsets_past_first_gap_witness:
  "map_of (mergeParams [(Idx 0, JStr ''b'')] (Some [(Idx 0, JStr ''a'')])) (Idx 0) = Some (JStr ''a'') \<and>
   map_of (mergeParams [(Idx 0, JStr ''b'')] (Some [(Idx 0, JStr ''a'')])) (Idx 1) = Some (JStr ''b'') \<and>
   map_of (mergeParams [(Idx 0, JStr ''b'')] (Some [(Idx 0, JStr ''a'')])) (Idx 2) = None"
proof -
  have h1: "has_key [(Idx 0, JStr ''b'')] (Idx 0)" by (simp add: has_key_def)
  have h2: "has_key [(Idx 0, JStr ''a'')] (Idx 0)" by (simp add: has_key_def)
  have p1: "positional [(Idx 0, JStr ''b'')] 1" by (simp add: positional_def has_key_def)
  have p2: "positional [(Idx 0, JStr ''a'')] 1" by (simp add: positional_def has_key_def)
  have g1: "numeric_gap [(Idx 0, JStr ''b'')] 0 = 1" by (simp add: numeric_gap.simps has_key_def)
  have g2: "numeric_gap [(Idx 0, JStr ''a'')] 0 = 1" by (simp add: numeric_gap.simps has_key_def)
  from mergeParams_offsets_past_first_gap[OF h1 h2, of 1 1] p1 p2
  have all: "\<forall>j. map_of (mergeParams [(Idx 0, JStr ''b'')] (Some [(Idx 0, JStr ''a'')])) (Idx j) =
           (if j < 1 then map_of [(Idx 0, JStr ''a'')] (Idx j)
            else if j < 1 + 1 then map_of [(Idx 0, JStr ''b'')] (Idx (j - 1)) else None)"
    by blast
  show ?thesis using all[rule_format, of 0] all[rule_format, of 1] all[rule_format, of 2] by simp
qed

section \<open>Control signals\<close>

text \<open>
  C8. \<open>next('router')\<close> leaves the router without an error: \<open>done\<close> is deferred with
  \<open>null\<close>, \<open>idx\<close> stays where it was, and the dispatch ends with no further event.
\<close>

theorem router_signal_aborts:
  "next parseUrl r hc st (JStr ''router'') = (restore_url hc st, Defer_done JNull) \<and>
   idx (restore_url hc st) = idx st \<and>
   run parseUrl r hc st evs (JStr ''router'') =
     ((restore_url hc st)\<lparr>sess := restore hc (sess (restore_url hc st))\<rparr>, evs, Done Deferred JNull)"
proof -
  have n: "next parseUrl r hc st (JStr ''router'') = (restore_url hc st, Defer_done JNull)"
    by (simp add: next_def)
  have i: "idx (restore_url hc st) = idx st" by (simp add: restore_url_def Let_def)
  have "run parseUrl r hc st evs (JStr ''router'') =
     ((restore_url hc st)\<lparr>sess := restore hc (sess (restore_url hc st))\<rparr>, evs, Done Deferred JNull)"
    by (subst run.simps) (simp add: n)
  with n i show ?thesis by simp
qed




section \<open>Trimming the mount prefix\<close>

text \<open>
  C3. For a layer without a Route and a non-empty \<open>layerPath\<close>, a handler is called
  after the parameters only if the character of \<open>path\<close> after the prefix is absent or a
  slash; otherwise \<open>next(layerError)\<close> is called, the state unchanged.
\<close>

theorem prefix_respects_segment_boundary:
  assumes "layer_route l = None" and "layerPath \<noteq> []"
  shows "(invokes (snd (params_done hc st l layerError layerPath path err)) \<longleftrightarrow>
            \<not> truthy err \<and> (length path \<le> length layerPath \<or> path ! length layerPath = CHR ''/'')) \<and>
         (\<not> truthy err \<and> length layerPath < length path \<and> path ! length layerPath \<noteq> CHR ''/'' \<longrightarrow>
            params_done hc st l layerError layerPath path err = (st, Renext layerError))"
  using assms by (auto simp: params_done_def trim_prefix_def Let_def)

theorem prefix_respects_segment_boundary_witness:
  "\<not> invokes (snd (params_done ex_const (ex_state ''/foobar'') (mw_layer ''/foo'' pass) JUndefined
                     ''/foo'' ''/foobar'' JUndefined)) \<and>
   params_done ex_const (ex_state ''/foobar'') (mw_layer ''/foo'' pass) JUndefined
       ''/foo'' ''/foobar'' JUndefined = (ex_state ''/foobar'', Renext JUndefined)"
proof -
  have 1: "layer_route (mw_layer ''/foo'' pass) = None" by (simp add: mw_layer_def)
  have 2: "''/foo'' \<noteq> []" by simp
  show ?thesis
    using prefix_respects_segment_boundary[OF 1 2, of ex_const "ex_state ''/foobar''" JUndefined "''/foobar''" JUndefined]
    by simp
qed

text \<open>\<open>use('/foo', handler)\<close> and a request to \<open>/foobar\<close>: no handler is called.\<close>

lemma use_foo_request_foobar:
  "handle ex_parseUrl (ex_router [mw_layer ''/foo'' pass]) True (ex_session ''/foobar'') =
     Inr (\<lparr>url = ''/foobar'', baseUrl = None, originalUrl = Some ''/foobar'', params = None,
           query = None, route = None, step = Some 1\<rparr>, [], Done Deferred JUndefined)"
  by code_simp

text \<open>
  C4 as stated fails: \<open>use('/foo', handler)\<close> and a request to \<open>/foo\<close>. While the
  handler holds the request, \<open>baseUrl + url\<close> is \<open>/foo/\<close>, not \<open>/foo\<close>.
\<close>

theorem trimmed_url_counterexample:
  "handle ex_parseUrl (ex_router [mw_layer ''/foo'' respond]) True (ex_session ''/foo'') =
     Inr (\<lparr>url = ''/'', baseUrl = Some ''/foo'', originalUrl = Some ''/foo'', params = Some [],
           query = None, route = None, step = Some 1\<rparr>, [Request_handled 0], Stalled) \<and>
   \<not> reconstructs \<lparr>url = ''/'', baseUrl = Some ''/foo'', originalUrl = Some ''/foo'', params = Some [],
           query = None, route = None, step = Some 1\<rparr>"
  by code_simp

text \<open>
  C4, amended. After a trim of a prefix of the url, from a context where
  \<open>parentUrl + url\<close> is \<open>originalUrl\<close>: \<open>baseUrl + url\<close> is \<open>originalUrl\<close> exactly
  when a leading slash was added if and only if the prefix ends with a slash; the prefix is
  recorded, and the head of the next \<open>next\<close> puts the url back.
\<close>

theorem trimmed_url_reconstructs:
  assumes "originalUrl (sess st) = Some (parentUrl hc @ url (sess st))"
    and "take (length layerPath) (url (sess st)) = layerPath"
    and "layerPath \<noteq> []"
    and "\<not> slashAdded st"
    and "length path \<le> length layerPath \<or> path ! length layerPath = CHR ''/''"
  shows "(reconstructs (sess (fst (trim_prefix hc st layerError layerPath path))) \<longleftrightarrow>
            (slashAdded (fst (trim_prefix hc st layerError layerPath path)) \<longleftrightarrow>
               last layerPath = CHR ''/'')) \<and>
         removed (fst (trim_prefix hc st layerError layerPath path)) = layerPath \<and>
         sess (restore_url hc (fst (trim_prefix hc st layerError layerPath path))) =
           (sess st)\<lparr>baseUrl := Some (parentUrl hc)\<rparr>"
proof -
  obtain rest where u: "url (sess st) = layerPath @ rest"
    using assms(2) by (metis append_take_drop_id)
  have lp: "butlast layerPath @ [last layerPath] = layerPath"
    using assms(3) by simp
  let ?synth = "(case rest of [] \<Rightarrow> True | c # _ \<Rightarrow> c \<noteq> CHR ''/'')"
  let ?st' = "fst (trim_prefix hc st layerError layerPath path)"
  have st': "?st' = st\<lparr>removed := layerPath, slashAdded := ?synth,
                 sess := (sess st)\<lparr>url := (if ?synth then CHR ''/'' # rest else rest),
                   baseUrl := Some (parentUrl hc @ (if last layerPath = CHR ''/'' then butlast layerPath else layerPath))\<rparr>\<rparr>"
    using assms(3,4,5) u by (auto simp: trim_prefix_def Let_def)
  have a: "reconstructs (sess ?st') \<longleftrightarrow> (slashAdded ?st' \<longleftrightarrow> last layerPath = CHR ''/'')"
  proof (cases ?synth)
    case True
    show ?thesis
    proof (cases "last layerPath = CHR ''/''")
      case l: True
      have "butlast layerPath @ CHR ''/'' # rest = layerPath @ rest"
        using lp l by (metis append.assoc append_Cons append_Nil)
      then show ?thesis using True l by (simp add: st' reconstructs_def assms(1) u)
    next
      case l: False
      have "layerPath @ CHR ''/'' # rest \<noteq> layerPath @ rest" by simp
      then show ?thesis using True l by (simp add: st' reconstructs_def assms(1) u)
    qed
  next
    case False
    show ?thesis
    proof (cases "last layerPath = CHR ''/''")
      case l: True
      have "length (butlast layerPath @ rest) \<noteq> length (layerPath @ rest)"
        using assms(3) by (cases layerPath rule: rev_cases) auto
      then have "butlast layerPath @ rest \<noteq> layerPath @ rest" by metis
      then show ?thesis using False l by (simp add: st' reconstructs_def assms(1) u)
    next
      case l: False
      then show ?thesis using False by (simp add: st' reconstructs_def assms(1) u)
    qed
  qed
  have b: "removed ?st' = layerPath" by (simp add: st')
  have c: "sess (restore_url hc ?st') = (sess st)\<lparr>baseUrl := Some (parentUrl hc)\<rparr>"
    using assms(3) u by (simp add: st' restore_url_def Let_def)
  show ?thesis using a b c by blast
qed

theorem trimmed_url_reconstructs_witness:
  "reconstructs (sess (fst (trim_prefix ex_const (ex_state ''/foo/bar'') JUndefined ''/foo'' ''/foo/bar''))) \<and>
   sess (fst (trim_prefix ex_const (ex_state ''/foo/bar'') JUndefined ''/foo'' ''/foo/bar'')) =
     (sess (ex_state ''/foo/bar''))\<lparr>url := ''/bar'', baseUrl := Some ''/foo''\<rparr>"
proof -
  have 1: "originalUrl (sess (ex_state ''/foo/bar'')) = Some (parentUrl ex_const @ url (sess (ex_state ''/foo/bar'')))"
    by (simp add: ex_state_def ex_const_def ex_session_def)
  have 2: "take (length ''/foo'') (url (sess (ex_state ''/foo/bar''))) = ''/foo''"
    by (simp add: ex_state_def ex_session_def)
  have 3: "''/foo'' \<noteq> []" by simp
  have 4: "\<not> slashAdded (ex_state ''/foo/bar'')" by (simp add: ex_state_def)
  have 5: "length ''/foo/bar'' \<le> length ''/foo'' \<or> ''/foo/bar'' ! length ''/foo'' = CHR ''/''" by simp
  have 6: "\<not> slashAdded (fst (trim_prefix ex_const (ex_state ''/foo/bar'') JUndefined ''/foo'' ''/foo/bar''))"
    by (simp add: trim_prefix_def ex_state_def ex_session_def Let_def)
  have 7: "sess (fst (trim_prefix ex_const (ex_state ''/foo/bar'') JUndefined ''/foo'' ''/foo/bar'')) =
     (sess (ex_state ''/foo/bar''))\<lparr>url := ''/bar'', baseUrl := Some ''/foo''\<rparr>"
    by (simp add: trim_prefix_def ex_state_def ex_session_def ex_const_def Let_def)
  show ?thesis
    using trimmed_url_reconstructs[OF 1 2 3 4 5, of JUndefined] 6 7 by simp
qed

section \<open>Registration\<close>

lemma use_loop_stops_at_non_function:
  "\<not> is_fn bad \<Longrightarrow>
   use_loop Layer path r (map A_fn fs @ bad # rest) =
     (r\<lparr>stack := stack r @
          map (\<lambda>fn. (Layer path \<lparr>opt_sensitive = caseSensitive r, opt_strict = False, opt_end = False\<rparr> fn)
                      \<lparr>layer_route := None\<rparr>) fs\<rparr>,
      Inl (TypeError ''argument handler must be a function''))"
proof (induction fs arbitrary: r)
  case Nil
  then show ?case by (cases bad) simp_all
next
  case (Cons f fs)
  show ?case by (simp add: Cons.IH[OF Cons.prems])
qed

text \<open>
  C10. When the flattened handlers of \<open>use\<close> are functions \<open>fs\<close> followed by a
  value that is not a function, \<open>use\<close> throws the TypeError with the layers of
  \<open>fs\<close> already on the stack.
\<close>

theorem use_not_atomic:
  assumes "use_path args = (offset, path)"
    and "flatten (drop offset args) = map A_fn fs @ bad # rest"
    and "\<not> is_fn bad"
  shows "use Layer r args =
     (r\<lparr>stack := stack r @
          map (\<lambda>fn. (Layer path \<lparr>opt_sensitive = caseSensitive r, opt_strict = False, opt_end = False\<rparr> fn)
                      \<lparr>layer_route := None\<rparr>) fs\<rparr>,
      Inl (TypeError ''argument handler must be a function''))"
  using assms by (simp add: use_def use_loop_stops_at_non_function)

theorem use_not_atomic_witness:
  "use (\<lambda>p opts fn. mw_layer ''/'' fn) (ex_router []) [A_fn pass, A_array [A_fn respond, A_str ''oops''], A_fn pass] =
     ((ex_router [])\<lparr>stack := [mw_layer ''/'' pass, mw_layer ''/'' respond]\<rparr>,
      Inl (TypeError ''argument handler must be a function''))"
proof -
  have 1: "use_path [A_fn pass, A_array [A_fn respond, A_str ''oops''], A_fn pass] = (0, A_str ''/'')"
    by (simp add: use_path_def)
  have 2: "flatten (drop 0 [A_fn pass, A_array [A_fn respond, A_str ''oops''], A_fn pass]) =
             map A_fn [pass, respond] @ A_str ''oops'' # [A_fn pass]"
    by simp
  have 3: "\<not> is_fn (A_str ''oops'' :: handler arg)" by simp
  show ?thesis
    using use_not_atomic[OF 1 2 3, of "\<lambda>p opts fn. mw_layer ''/'' fn" "ex_router []"]
    by (simp add: ex_router_def mw_layer_def)
qed

section \<open>Parameter callbacks\<close>

lemma paramCallback_threw:
  "params s = None \<Longrightarrow> paramCallback fns name v pc s evs err = (pc, s, evs, Pcb_threw)"
  by (subst paramCallback.simps) simp

lemma paramCallback_error:
  "params s = Some ps \<Longrightarrow> truthy err \<Longrightarrow>
   paramCallback fns name v pc s evs err =
     (pc\<lparr>pc_value := get_prop ps name, pc_error := err\<rparr>, s, evs, Param_call err)"
  by (subst paramCallback.simps) (simp add: Let_def)

lemma paramCallback_Nil:
  "params s = Some ps \<Longrightarrow> \<not> truthy err \<Longrightarrow>
   paramCallback [] name v pc s evs err =
     (pc\<lparr>pc_value := get_prop ps name\<rparr>, s, evs, Param_call JUndefined)"
  by (subst paramCallback.simps) (simp add: Let_def)

lemma paramCallback_Cons:
  "params s = Some ps \<Longrightarrow> \<not> truthy err \<Longrightarrow>
   paramCallback (fn # rest) name v pc s evs err =
     (case fn s v name of
        (s', Cb_next e) \<Rightarrow>
          paramCallback rest name v (pc\<lparr>pc_value := get_prop ps name\<rparr>) s'
            (evs @ [Param_called name v]) e
      | (s', Cb_throw e) \<Rightarrow>
          paramCallback rest name v (pc\<lparr>pc_value := get_prop ps name\<rparr>) s'
            (evs @ [Param_called name v]) e
      | (s', Cb_stall) \<Rightarrow>
          (pc\<lparr>pc_value := get_prop ps name\<rparr>, s', evs @ [Param_called name v], Pcb_stalled))"
  by (subst paramCallback.simps) (simp add: Let_def)

lemma paramCallback_keeps_match:
  "paramCallback fns name v pc s evs err = (pc', s', evs', res) \<Longrightarrow> pc_match pc' = pc_match pc"
proof (induction fns arbitrary: pc s evs err)
  case Nil
  then show ?case
    by (cases "params s"; cases "truthy err")
       (auto simp: paramCallback_threw paramCallback_error paramCallback_Nil)
next
  case (Cons fn rest)
  show ?case
  proof (cases "params s")
    case None
    then show ?thesis using Cons.prems by (auto simp: paramCallback_threw)
  next
    case (Some ps)
    show ?thesis
    proof (cases "truthy err")
      case True
      then show ?thesis using Cons.prems Some by (auto simp: paramCallback_error)
    next
      case False
      obtain s1 re where f: "fn s v name = (s1, re)" by (cases "fn s v name")
      show ?thesis
      proof (cases re)
        case (Cb_next e)
        then have "paramCallback rest name v (pc\<lparr>pc_value := get_prop ps name\<rparr>) s1
                     (evs @ [Param_called name v]) e = (pc', s', evs', res)"
          using Cons.prems Some False f by (simp add: paramCallback_Cons)
        from Cons.IH[OF this] show ?thesis by simp
      next
        case (Cb_throw e)
        then have "paramCallback rest name v (pc\<lparr>pc_value := get_prop ps name\<rparr>) s1
                     (evs @ [Param_called name v]) e = (pc', s', evs', res)"
          using Cons.prems Some False f by (simp add: paramCallback_Cons)
        from Cons.IH[OF this] show ?thesis by simp
      next
        case Cb_stall
        then show ?thesis using Cons.prems Some False f by (auto simp: paramCallback_Cons)
      qed
    qed
  qed
qed

lemma paramCallback_stores_error:
  "paramCallback fns name v pc s evs err = (pc', s', evs', Param_call e) \<Longrightarrow> truthy e \<Longrightarrow>
   pc_error pc' = e"
proof (induction fns arbitrary: pc s evs err)
  case Nil
  then show ?case
    by (cases "params s"; cases "truthy err")
       (auto simp: paramCallback_threw paramCallback_error paramCallback_Nil)
next
  case (Cons fn rest)
  show ?case
  proof (cases "params s")
    case None
    then show ?thesis using Cons.prems by (auto simp: paramCallback_threw)
  next
    case (Some ps)
    show ?thesis
    proof (cases "truthy err")
      case True
      then show ?thesis using Cons.prems Some by (auto simp: paramCallback_error)
    next
      case False
      obtain s1 re where f: "fn s v name = (s1, re)" by (cases "fn s v name")
      show ?thesis
      proof (cases re)
        case (Cb_next e0)
        then have "paramCallback rest name v (pc\<lparr>pc_value := get_prop ps name\<rparr>) s1
                     (evs @ [Param_called name v]) e0 = (pc', s', evs', Param_call e)"
          using Cons.prems Some False f by (simp add: paramCallback_Cons)
        from Cons.IH[OF this Cons.prems(2)] show ?thesis .
      next
        case (Cb_throw e0)
        then have "paramCallback rest name v (pc\<lparr>pc_value := get_prop ps name\<rparr>) s1
                     (evs @ [Param_called name v]) e0 = (pc', s', evs', Param_call e)"
          using Cons.prems Some False f by (simp add: paramCallback_Cons)
        from Cons.IH[OF this Cons.prems(2)] show ?thesis .
      next
        case Cb_stall
        then show ?thesis using Cons.prems Some False f by (auto simp: paramCallback_Cons)
      qed
    qed
  qed
qed

lemma param_error:
  "truthy err \<Longrightarrow> param reg ks called s evs err = (called, s, evs, P_done err)"
  by (subst param.simps) simp

lemma param_Nil:
  "\<not> truthy err \<Longrightarrow> param reg [] called s evs err = (called, s, evs, P_done JUndefined)"
  by (subst param.simps) simp

lemma param_end:
  "param reg [] called s evs err = (called, s, evs, P_done (if truthy err then err else JUndefined))"
  by (simp add: param_error param_Nil)

lemma param_threw:
  "\<not> truthy err \<Longrightarrow> params s = None \<Longrightarrow>
   param reg (name # rest) called s evs err = (called, s, evs, P_threw)"
  by (subst param.simps) simp

lemma param_skip:
  "\<not> truthy err \<Longrightarrow> params s = Some ps \<Longrightarrow> reg name = None \<or> get_prop ps name = JUndefined \<Longrightarrow>
   param reg (name # rest) called s evs err = param reg rest called s evs JUndefined"
  by (subst param.simps) (auto simp: Let_def split: option.splits)

lemma param_hit:
  "\<not> truthy err \<Longrightarrow> params s = Some ps \<Longrightarrow> reg name = Some fns \<Longrightarrow>
   get_prop ps name \<noteq> JUndefined \<Longrightarrow> cached (called name) (get_prop ps name) = Some pc \<Longrightarrow>
   param reg (name # rest) called s evs err =
     param reg rest called (s\<lparr>params := Some (AList.update name (pc_value pc) ps)\<rparr>) evs (pc_error pc)"
  by (subst param.simps) (simp add: Let_def)

lemma param_fresh:
  "\<not> truthy err \<Longrightarrow> params s = Some ps \<Longrightarrow> reg name = Some fns \<Longrightarrow>
   get_prop ps name \<noteq> JUndefined \<Longrightarrow> cached (called name) (get_prop ps name) = None \<Longrightarrow>
   param reg (name # rest) called s evs err =
     (case paramCallback fns name (get_prop ps name)
             \<lparr>pc_error = JNull, pc_match = get_prop ps name, pc_value = get_prop ps name\<rparr>
             s evs JUndefined of
        (pc', s', evs', Param_call e) \<Rightarrow> param reg rest (called(name \<mapsto> pc')) s' evs' e
      | (pc', s', evs', Pcb_stalled) \<Rightarrow> (called(name \<mapsto> pc'), s', evs', P_stalled)
      | (pc', s', evs', Pcb_threw) \<Rightarrow> (called(name \<mapsto> pc'), s', evs', P_threw))"
  by (subst param.simps) (simp add: Let_def)

text \<open>
  C6 as stated fails: three layers capture \<open>id\<close> as \<open>a\<close>, \<open>b\<close>, \<open>a\<close>. The
  entry of \<open>called\<close> for \<open>id\<close> holds the last value only, so the callback runs for
  \<open>(id, a)\<close> twice.
\<close>

theorem param_callbacks_counterexample:
  "handle ex_parseUrl (id_router [id_layer ''a'' pass, id_layer ''b'' pass, id_layer ''a'' pass]) True
      (ex_session ''/a/b/a'') =
   Inr (\<lparr>url = ''/a/b/a'', baseUrl = None, originalUrl = Some ''/a/b/a'',
         params = None, query = None, route = None, step = Some 3\<rparr>,
      [Param_called (Name ''id'') (JStr ''a''), Request_handled 0,
       Param_called (Name ''id'') (JStr ''b''), Request_handled 1,
       Param_called (Name ''id'') (JStr ''a''), Request_handled 2],
      Done Deferred JUndefined)"
  by code_simp

text \<open>
  C6, amended. After a layer whose one key is \<open>name\<close> was processed to the end, a
  layer with the same key calls no callback and leaves \<open>called\<close> as it is, when the value
  is the one just processed or the processing ended with an error that is not
  \<open>'route'\<close>: the cached value is written back and the cached error is passed on.
\<close>

theorem repeated_param_reuses_cache:
  assumes k: "layer_keys l = [name]" and k': "layer_keys l' = [name]"
    and ps: "params s = Some ps" and ps2: "params s2 = Some ps2"
    and first: "process_params reg l called s evs = (called1, s1, evs1, P_done e1)"
    and same: "get_prop ps2 name = get_prop ps name \<or> (truthy e1 \<and> e1 \<noteq> JStr ''route'')"
  shows "(reg name = None \<or> get_prop ps2 name = JUndefined \<longrightarrow>
            process_params reg l' called1 s2 evs2 = (called1, s2, evs2, P_done JUndefined)) \<and>
         (reg name \<noteq> None \<and> get_prop ps2 name \<noteq> JUndefined \<longrightarrow>
            (\<exists>pc. called1 name = Some pc \<and>
                  process_params reg l' called1 s2 evs2 =
                    (called1, s2\<lparr>params := Some (AList.update name (pc_value pc) ps2)\<rparr>, evs2,
                     P_done (if truthy (pc_error pc) then pc_error pc else JUndefined))))"
proof -
  have nt: "\<not> truthy JUndefined" by simp
  have p1: "process_params reg l called s evs = param reg [name] called s evs JUndefined"
    by (simp add: process_params_def k)
  have p2: "process_params reg l' called1 s2 evs2 = param reg [name] called1 s2 evs2 JUndefined"
    by (simp add: process_params_def k')
  have skip: "process_params reg l' called1 s2 evs2 = (called1, s2, evs2, P_done JUndefined)"
    if "reg name = None \<or> get_prop ps2 name = JUndefined"
    using that by (simp add: p2 param_skip[where reg=reg and name=name, OF nt ps2] param_Nil)
  have hit: "\<exists>pc. called1 name = Some pc \<and>
                  process_params reg l' called1 s2 evs2 =
                    (called1, s2\<lparr>params := Some (AList.update name (pc_value pc) ps2)\<rparr>, evs2,
                     P_done (if truthy (pc_error pc) then pc_error pc else JUndefined))"
    if r: "reg name \<noteq> None" and v2: "get_prop ps2 name \<noteq> JUndefined"
  proof -
    obtain fns where fns: "reg name = Some fns" using r by auto
    have reuse: "cached (called1 name) (get_prop ps2 name) = Some pc \<Longrightarrow> ?thesis" for pc
    proof -
      assume c: "cached (called1 name) (get_prop ps2 name) = Some pc"
      then have "called1 name = Some pc"
        by (auto simp: cached_def split: option.splits if_splits)
      moreover have "process_params reg l' called1 s2 evs2 =
           (called1, s2\<lparr>params := Some (AList.update name (pc_value pc) ps2)\<rparr>, evs2,
            P_done (if truthy (pc_error pc) then pc_error pc else JUndefined))"
        by (simp add: p2 param_hit[where reg=reg and name=name and called=called1, OF nt ps2 fns v2 c] param_end)
      ultimately show ?thesis by blast
    qed
    show ?thesis
    proof (cases "get_prop ps name = JUndefined")
      case True
      then have "param reg [name] called s evs JUndefined = (called, s, evs, P_done JUndefined)"
        by (simp add: param_skip[where reg=reg and name=name, OF nt ps] param_Nil)
      then have "e1 = JUndefined" using first p1 by simp
      then show ?thesis using same v2 True by simp
    next
      case v: False
      show ?thesis
      proof (cases "cached (called name) (get_prop ps name)")
        case (Some pc)
        have "param reg [name] called s evs JUndefined =
                (called, s\<lparr>params := Some (AList.update name (pc_value pc) ps)\<rparr>, evs,
                 P_done (if truthy (pc_error pc) then pc_error pc else JUndefined))"
          by (simp add: param_hit[where reg=reg and name=name and called=called, OF nt ps fns v Some] param_end)
        then have c1: "called1 = called"
          and e1: "e1 = (if truthy (pc_error pc) then pc_error pc else JUndefined)"
          using first p1 by simp_all
        have cp: "called name = Some pc"
          using Some by (auto simp: cached_def split: option.splits if_splits)
        have "cached (called1 name) (get_prop ps2 name) = Some pc"
          using same Some e1 cp
          by (auto simp: c1 cached_def split: if_splits)
        then show ?thesis by (rule reuse)
      next
        case None
        let ?pc0 = "\<lparr>pc_error = JNull, pc_match = get_prop ps name, pc_value = get_prop ps name\<rparr>"
        obtain pc' s' evs' res where cb:
          "paramCallback fns name (get_prop ps name) ?pc0 s evs JUndefined = (pc', s', evs', res)"
          by (metis prod_cases4)
        have m: "pc_match pc' = get_prop ps name"
          using paramCallback_keeps_match[OF cb] by simp
        have fr: "param reg [name] called s evs JUndefined =
              (case res of
                 Param_call e \<Rightarrow> param reg [] (called(name \<mapsto> pc')) s' evs' e
               | Pcb_stalled \<Rightarrow> (called(name \<mapsto> pc'), s', evs', P_stalled)
               | Pcb_threw \<Rightarrow> (called(name \<mapsto> pc'), s', evs', P_threw))"
          by (simp add: param_fresh[where reg=reg and name=name and called=called, OF nt ps fns v None] cb)
        obtain e where res: "res = Param_call e"
          using first p1 fr by (cases res) simp_all
        have c1: "called1 = called(name \<mapsto> pc')"
          and e1: "e1 = (if truthy e then e else JUndefined)"
          using first p1 fr res by (simp_all add: param_end)
        have "truthy e1 \<Longrightarrow> pc_error pc' = e1"
          using paramCallback_stores_error[of fns name "get_prop ps name" ?pc0 s evs JUndefined pc' s' evs' e]
            cb res e1 by (auto split: if_splits)
        then have "cached (called1 name) (get_prop ps2 name) = Some pc'"
          using same m by (auto simp: c1 cached_def)
        then show ?thesis by (rule reuse)
      qed
    qed
  qed
  show ?thesis using skip hit by blast
qed


theorem repeated_param_reuses_cache_witness:
  "process_params (router_params (id_router [])) (id_layer ''a'' pass)
      [Name ''id'' \<mapsto> \<lparr>pc_error = JNull, pc_match = JStr ''a'', pc_value = JStr ''a''\<rparr>]
      (id_session ''a'') [Param_called (Name ''id'') (JStr ''a'')] =
     ([Name ''id'' \<mapsto> \<lparr>pc_error = JNull, pc_match = JStr ''a'', pc_value = JStr ''a''\<rparr>],
      id_session ''a'', [Param_called (Name ''id'') (JStr ''a'')], P_done JUndefined)"
proof -
  let ?reg = "router_params (id_router [])"
  let ?pc = "\<lparr>pc_error = JNull, pc_match = JStr ''a'', pc_value = JStr ''a''\<rparr>"
  have k: "layer_keys (id_layer ''a'' pass) = [Name ''id'']" by (simp add: id_layer_def)
  have ps: "params (id_session ''a'') = Some [(Name ''id'', JStr ''a'')]" by (simp add: id_session_def)
  have cb: "paramCallback [id_callback] (Name ''id'') (JStr ''a'') ?pc (id_session ''a'') [] JUndefined =
              (?pc, id_session ''a'', [Param_called (Name ''id'') (JStr ''a'')], Param_call JUndefined)"
    by (simp add: paramCallback.simps id_callback_def id_session_def get_prop_def Let_def)
  have first: "process_params ?reg (id_layer ''a'' pass) Map.empty (id_session ''a'') [] =
      ([Name ''id'' \<mapsto> ?pc], id_session ''a'', [Param_called (Name ''id'') (JStr ''a'')], P_done JUndefined)"
    by (simp add: process_params_def k param.simps[of _ "[Name ''id'']"] param.simps[of _ "[]"] 
         ps id_router_def get_prop_def cached_def cb Let_def)
  have same: "get_prop [(Name ''id'', JStr ''a'')] (Name ''id'') = get_prop [(Name ''id'', JStr ''a'')] (Name ''id'')
       \<or> (truthy JUndefined \<and> JUndefined \<noteq> JStr ''route'')" by simp
  have r: "?reg (Name ''id'') \<noteq> None \<and> get_prop [(Name ''id'', JStr ''a'')] (Name ''id'') \<noteq> JUndefined"
    by (simp add: id_router_def get_prop_def)
  have upd: "(id_session ''a'')\<lparr>params := Some [(Name ''id'', JStr ''a'')]\<rparr> = id_session ''a''"
    by (simp add: id_session_def)
  from repeated_param_reuses_cache[OF k k ps ps first same, of "[Param_called (Name ''id'') (JStr ''a'')]"] r
  show ?thesis by (auto simp: upd)
qed

section \<open>Completion of a dispatch\<close>

lemma paramCallback_responsive:
  assumes "\<forall>fn \<in> set fns. \<forall>s v. snd (fn s v name) \<noteq> Cb_stall \<and>
              (params s \<noteq> None \<longrightarrow> params (fst (fn s v name)) \<noteq> None)"
    and "params s \<noteq> None"
  shows "\<exists>pc' s' evs' e. paramCallback fns name v pc s evs err = (pc', s', evs', Param_call e) \<and>
           params s' \<noteq> None"
  using assms
proof (induction fns arbitrary: pc s evs err)
  case Nil
  then obtain ps where "params s = Some ps" by auto
  then show ?case
    by (cases "truthy err") (auto simp: paramCallback_error paramCallback_Nil)
next
  case (Cons fn rest)
  then obtain ps where ps: "params s = Some ps" by auto
  show ?case
  proof (cases "truthy err")
    case True
    then show ?thesis using ps by (auto simp: paramCallback_error)
  next
    case False
    obtain s1 re where f: "fn s v name = (s1, re)" by (cases "fn s v name")
    have fn: "snd (fn s v name) \<noteq> Cb_stall" "params (fst (fn s v name)) \<noteq> None"
      using Cons.prems ps by auto
    then have s1: "params s1 \<noteq> None" and re: "re \<noteq> Cb_stall" using f by auto
    have rest: "\<forall>fn \<in> set rest. \<forall>s v. snd (fn s v name) \<noteq> Cb_stall \<and>
              (params s \<noteq> None \<longrightarrow> params (fst (fn s v name)) \<noteq> None)"
      using Cons.prems(1) by auto
    obtain e where "paramCallback (fn # rest) name v pc s evs err =
        paramCallback rest name v (pc\<lparr>pc_value := get_prop ps name\<rparr>) s1 (evs @ [Param_called name v]) e"
      using re f ps False by (cases re) (auto simp: paramCallback_Cons)
    then show ?thesis using Cons.IH[OF rest s1] by simp
  qed
qed

lemma param_responsive:
  assumes "\<forall>name fns. reg name = Some fns \<longrightarrow>
             (\<forall>fn \<in> set fns. \<forall>s v. snd (fn s v name) \<noteq> Cb_stall \<and>
                (params s \<noteq> None \<longrightarrow> params (fst (fn s v name)) \<noteq> None))"
    and "params s \<noteq> None"
  shows "\<exists>called' s' evs' e. param reg ks called s evs err = (called', s', evs', P_done e)"
  using assms(2)
proof (induction ks arbitrary: called s evs err)
  case Nil
  show ?case by (simp add: param_end)
next
  case (Cons name rest)
  then obtain ps where ps: "params s = Some ps" by auto
  show ?case
  proof (cases "truthy err")
    case True
    then show ?thesis by (simp add: param_error)
  next
    case nt: False
    show ?thesis
    proof (cases "reg name = None \<or> get_prop ps name = JUndefined")
      case True
      then show ?thesis
        using Cons.IH[OF Cons.prems] by (simp add: param_skip[where reg=reg and name=name, OF nt ps])
    next
      case False
      then obtain fns where fns: "reg name = Some fns" and v: "get_prop ps name \<noteq> JUndefined"
        by auto
      show ?thesis
      proof (cases "cached (called name) (get_prop ps name)")
        case (Some pc)
        have "params (s\<lparr>params := Some (AList.update name (pc_value pc) ps)\<rparr>) \<noteq> None" by simp
        from Cons.IH[OF this] show ?thesis
          by (simp add: param_hit[where reg=reg and name=name and called=called, OF nt ps fns v Some])
      next
        case None
        let ?pc0 = "\<lparr>pc_error = JNull, pc_match = get_prop ps name, pc_value = get_prop ps name\<rparr>"
        have r: "\<forall>fn \<in> set fns. \<forall>s v. snd (fn s v name) \<noteq> Cb_stall \<and>
                (params s \<noteq> None \<longrightarrow> params (fst (fn s v name)) \<noteq> None)"
          using assms(1) fns by blast
        obtain pc' s' evs' e where
          cb: "paramCallback fns name (get_prop ps name) ?pc0 s evs JUndefined = (pc', s', evs', Param_call e)"
          and s': "params s' \<noteq> None"
          using paramCallback_responsive[OF r Cons.prems] by blast
        from Cons.IH[OF s'] show ?thesis
          by (simp add: param_fresh[where reg=reg and name=name and called=called, OF nt ps fns v None] cb)
      qed
    qed
  qed
qed

lemma scan_done:
  "m = JBool True \<or> \<not> i < length stk \<Longrightarrow> scan stk path stp i le m lo = (i, le, m, lo)"
  by (subst scan.simps) auto

lemma scan_step:
  "m \<noteq> JBool True \<Longrightarrow> i < length stk \<Longrightarrow> scan_turn stp (Suc i) le (stk ! i) path = (le', m') \<Longrightarrow>
   scan stk path stp i le m lo = scan stk path stp (Suc i) le' m' (Some (stk ! i))"
  by (subst scan.simps) simp

lemma scan_turn_match:
  "scan_turn stp i le l path = (le', JBool True) \<Longrightarrow> layer_match l path = JBool True"
  by (auto simp: scan_turn_def Let_def split: if_splits)

lemma scan_matched_layer:
  "scan stk path stp i le m lo = (i', le', JBool True, lo') \<Longrightarrow>
   (m = JBool True \<longrightarrow> (\<exists>l \<in> set stk. lo = Some l)) \<Longrightarrow> \<exists>l \<in> set stk. lo' = Some l"
proof (induction stk path stp i le m lo rule: scan.induct)
  case (1 stk path stp i layerError m l)
  show ?case
  proof (cases "m \<noteq> JBool True \<and> i < length stk")
    case False
    then have "scan stk path stp i layerError m l = (i, layerError, m, l)"
      by (auto simp: scan_done)
    then show ?thesis using "1.prems" by auto
  next
    case True
    obtain ea ma where t: "scan_turn stp (Suc i) layerError (stk ! i) path = (ea, ma)"
      by (cases "scan_turn stp (Suc i) layerError (stk ! i) path")
    have "scan stk path stp (Suc i) ea ma (Some (stk ! i)) = (i', le', JBool True, lo')"
      using "1.prems"(1) True t by (simp add: scan_step)
    moreover have "ma = JBool True \<longrightarrow> (\<exists>l \<in> set stk. Some (stk ! i) = Some l)"
      using True by auto
    ultimately show ?thesis using "1.IH"[OF True t[symmetric]] by blast
  qed
qed

lemma scan_no_match:
  "scan stk path stp i le m lo = (i', le', m', lo') \<Longrightarrow> m \<noteq> JBool True \<Longrightarrow>
   \<forall>j. i \<le> j \<and> j < length stk \<longrightarrow> layer_match (stk ! j) path \<noteq> JBool True \<Longrightarrow>
   m' \<noteq> JBool True"
proof (induction stk path stp i le m lo rule: scan.induct)
  case (1 stk path stp i layerError m l)
  show ?case
  proof (cases "i < length stk")
    case False
    then have "scan stk path stp i layerError m l = (i, layerError, m, l)"
      by (auto simp: scan_done)
    then show ?thesis using "1.prems" by auto
  next
    case True
    obtain ea ma where t: "scan_turn stp (Suc i) layerError (stk ! i) path = (ea, ma)"
      by (cases "scan_turn stp (Suc i) layerError (stk ! i) path")
    have nm: "layer_match (stk ! i) path \<noteq> JBool True" using "1.prems"(3) True by auto
    have ma: "ma \<noteq> JBool True" using scan_turn_match t nm by blast
    have "scan stk path stp (Suc i) ea ma (Some (stk ! i)) = (i', le', m', lo')"
      using "1.prems"(1,2) True t by (simp add: scan_step)
    moreover have "\<forall>j. Suc i \<le> j \<and> j < length stk \<longrightarrow> layer_match (stk ! j) path \<noteq> JBool True"
      using "1.prems"(3) by auto
    ultimately show ?thesis using "1.IH"[OF _ t[symmetric]] "1.prems"(2) True ma by blast
  qed
qed

lemma restore_url_idx: "idx (restore_url hc st) = idx st"
  by (simp add: restore_url_def Let_def)

lemma next_Matched:
  assumes "next parseUrl r hc st err = (st1, Matched l le path)"
  shows "l \<in> set (stack r) \<and> params (sess st1) \<noteq> None"
proof -
  let ?st = "restore_url hc st"
  let ?le = "if err = JStr ''route'' then JNull else err"
  from assms obtain p where p: "getPathname parseUrl (sess ?st) = Some p"
    by (auto simp: next_def Let_def split: if_splits option.splits)
  obtain i le' m lo where sc: "scan (stack r) p (step (sess ?st)) (idx ?st) ?le JUndefined None = (i, le', m, lo)"
    by (metis prod_cases4)
  from assms p sc have m: "m = JBool True" and lo: "lo = Some l" and
    st1: "params (sess st1) \<noteq> None"
    by (auto simp: next_def Let_def split: if_splits option.splits)
  from scan_matched_layer[of "stack r" p _ _ _ JUndefined None i le' lo] sc m lo
  have "l \<in> set (stack r)" by auto
  with st1 show ?thesis by simp
qed

lemma next_not_threw: "next parseUrl r hc st err \<noteq> (st1, Next_threw)"
proof
  assume a: "next parseUrl r hc st err = (st1, Next_threw)"
  let ?st = "restore_url hc st"
  let ?le = "if err = JStr ''route'' then JNull else err"
  from a obtain p where p: "getPathname parseUrl (sess ?st) = Some p"
    by (auto simp: next_def Let_def split: if_splits option.splits)
  obtain i le' m lo where sc: "scan (stack r) p (step (sess ?st)) (idx ?st) ?le JUndefined None = (i, le', m, lo)"
    by (metis prod_cases4)
  from a p sc have m: "m = JBool True" and lo: "lo = None"
    by (auto simp: next_def Let_def split: if_splits option.splits)
  from scan_matched_layer[of "stack r" p _ _ _ JUndefined None i le' lo] sc m lo
  show False by auto
qed

lemma dispatch_layer_responsive:
  assumes r: "responsive r" and l: "l \<in> set (stack r)" and ps: "params (sess st) \<noteq> None"
  shows "\<exists>st2 evs2 e. dispatch_layer r hc st l le path evs = (st2, evs2, Inr e)"
proof -
  have reg: "\<forall>name fns. router_params r name = Some fns \<longrightarrow>
             (\<forall>fn \<in> set fns. \<forall>s v. snd (fn s v name) \<noteq> Cb_stall \<and>
                (params s \<noteq> None \<longrightarrow> params (fst (fn s v name)) \<noteq> None))"
    using r by (simp add: responsive_def)
  have hr: "snd (handle_request l s) \<noteq> None" and he: "snd (handle_error l e s) \<noteq> None" for s e
    using r l by (auto simp: responsive_def)
  have "\<exists>called' s' evs' e.
      process_params (router_params r) l (paramcalled st) (sess st) evs = (called', s', evs', P_done e)"
  proof (cases "layer_keys l = []")
    case True
    then show ?thesis by (simp add: process_params_def)
  next
    case False
    then show ?thesis
      using param_responsive[OF reg ps, of "layer_keys l" "paramcalled st" evs JUndefined]
      by (simp add: process_params_def)
  qed
  then obtain called' s' evs' e where
    pp: "process_params (router_params r) l (paramcalled st) (sess st) evs = (called', s', evs', P_done e)"
    by blast
  let ?st1 = "st\<lparr>paramcalled := called', sess := s'\<rparr>"
  obtain st2 inv where pd: "params_done hc ?st1 l le (layer_path l path) path e = (st2, inv)"
    by (cases "params_done hc ?st1 l le (layer_path l path) path e")
  show ?thesis
  proof (cases inv)
    case (Renext x)
    then show ?thesis using pp pd by (simp add: dispatch_layer_def Let_def)
  next
    case (Invoke_error x)
    obtain s2 re where h: "handle_error l x (sess st2) = (s2, re)" by (cases "handle_error l x (sess st2)")
    then have "re \<noteq> None" using he[of x "sess st2"] by simp
    then obtain v where "re = Some v" by auto
    then show ?thesis using pp pd Invoke_error h by (simp add: dispatch_layer_def Let_def)
  next
    case Invoke_request
    obtain s2 re where h: "handle_request l (sess st2) = (s2, re)" by (cases "handle_request l (sess st2)")
    then have "re \<noteq> None" using hr[of "sess st2"] by simp
    then obtain v where "re = Some v" by auto
    then show ?thesis using pp pd Invoke_request h by (simp add: dispatch_layer_def Let_def)
  qed
qed

lemma run_completes:
  "responsive r \<Longrightarrow> \<exists>st' evs' c v. run parseUrl r hc st evs err = (st', evs', Done c v)"
proof (induction parseUrl r hc st evs err rule: run.induct)
  case (1 parseUrl r hc st evs err)
  obtain st1 out where n: "next parseUrl r hc st err = (st1, out)"
    by (cases "next parseUrl r hc st err")
  show ?case
  proof (cases out)
    case (Defer_done v)
    then show ?thesis using n by (subst run.simps) simp
  next
    case (Call_done v)
    then show ?thesis using n by (subst run.simps) simp
  next
    case Next_threw
    then show ?thesis using n next_not_threw by blast
  next
    case (Matched l le path)
    have lm: "l \<in> set (stack r)" "params (sess st1) \<noteq> None"
      using next_Matched n Matched by blast+
    obtain st2 evs2 e where d: "dispatch_layer r hc st1 l le path evs = (st2, evs2, Inr e)"
      using dispatch_layer_responsive[OF "1.prems" lm] by blast
    have "run parseUrl r hc st evs err = run parseUrl r hc st2 evs2 e"
      using n Matched d by (subst run.simps) simp
    moreover have "\<exists>st' evs' c v. run parseUrl r hc st2 evs2 e = (st', evs', Done c v)"
      using "1.IH"[OF n[symmetric] Matched d[symmetric] refl refl "1.prems"] .
    ultimately show ?thesis by simp
  qed
qed


text \<open>
  C1 as stated fails: one layer mounted at \<open>/foo\<close> and a request to \<open>/bar\<close>. Nothing
  matches, and \<open>done\<close> is called directly, inside the first \<open>next()\<close> of \<open>handle\<close>.
\<close>

theorem terminal_callback_direct_counterexample:
  "handle ex_parseUrl (ex_router [mw_layer ''/foo'' pass]) True (ex_session ''/bar'') =
     Inr (\<lparr>url = ''/bar'', baseUrl = None, originalUrl = Some ''/bar'', params = None,
           query = None, route = None, step = Some 1\<rparr>, [], Done Direct JUndefined)"
  by code_simp

text \<open>
  C1, amended. When \<open>parseUrl\<close> accepts the url and every handler and parameter
  callback calls its continuation, \<open>handle\<close> ends with one call of the terminal callback.
  A call of \<open>next\<close> defers \<open>done\<close> on the \<open>'router'\<close> signal and when the stack is
  exhausted; it calls \<open>done\<close> directly when the path cannot be parsed and when no
  remaining layer matches.
\<close>

theorem terminal_callback_once:
  "(responsive r \<and> parseUrl (url s) \<noteq> None \<longrightarrow>
      (\<exists>s' evs' c v. handle parseUrl r True s = Inr (s', evs', Done c v))) \<and>
   (err = JStr ''router'' \<longrightarrow> snd (next parseUrl r hc st err) = Defer_done JNull) \<and>
   (err \<noteq> JStr ''router'' \<and> length (stack r) \<le> idx st \<longrightarrow>
      snd (next parseUrl r hc st err) = Defer_done (if err = JStr ''route'' then JNull else err)) \<and>
   (err \<noteq> JStr ''router'' \<and> idx st < length (stack r) \<and>
    getPathname parseUrl (sess (restore_url hc st)) = None \<longrightarrow>
      snd (next parseUrl r hc st err) = Call_done (if err = JStr ''route'' then JNull else err)) \<and>
   (err \<noteq> JStr ''router'' \<and> idx st < length (stack r) \<and>
    getPathname parseUrl (sess (restore_url hc st)) = Some path \<and>
    (\<forall>j. idx st \<le> j \<and> j < length (stack r) \<longrightarrow> layer_match (stack r ! j) path \<noteq> JBool True) \<longrightarrow>
      (\<exists>v. snd (next parseUrl r hc st err) = Call_done v))"
proof -
  have a: "\<exists>s' evs' c v. handle parseUrl r True s = Inr (s', evs', Done c v)"
    if r: "responsive r" and p: "parseUrl (url s) \<noteq> None"
  proof -
    obtain parts where parts: "parseUrl (url s) = Some parts" using p by auto
    let ?hc = "\<lparr>parentParams = params s,
                parentUrl = (case baseUrl s of None \<Rightarrow> [] | Some b \<Rightarrow> b),
                saved_baseUrl = baseUrl s, saved_params = params s\<rparr>"
    let ?s1 = "s\<lparr>baseUrl := Some (parentUrl ?hc),
                  originalUrl := (case originalUrl s of
                                    None \<Rightarrow> Some (url s)
                                  | Some ou \<Rightarrow> if ou = [] then Some (url s) else Some ou)\<rparr>"
    let ?st0 = "\<lparr>idx = 0, removed = [], slashAdded = False, paramcalled = Map.empty,
                 sess = ?s1\<lparr>query := url_query parts\<rparr>\<rparr>"
    obtain st' evs' c v where "run parseUrl r ?hc ?st0 [] JUndefined = (st', evs', Done c v)"
      using run_completes[OF r] by blast
    then have "handle parseUrl r True s = Inr (sess st', evs', Done c v)"
      using parts by (simp add: handle_def Let_def)
    then show ?thesis by blast
  qed
  have i: "idx (restore_url hc st) = idx st" by (rule restore_url_idx)
  have b1: "snd (next parseUrl r hc st err) = Defer_done JNull" if "err = JStr ''router''"
    using that by (simp add: next_def)
  have b2: "snd (next parseUrl r hc st err) = Defer_done (if err = JStr ''route'' then JNull else err)"
    if "err \<noteq> JStr ''router''" and "length (stack r) \<le> idx st"
    using that by (simp add: next_def Let_def i)
  have b3: "snd (next parseUrl r hc st err) = Call_done (if err = JStr ''route'' then JNull else err)"
    if "err \<noteq> JStr ''router''" and "idx st < length (stack r)"
      and "getPathname parseUrl (sess (restore_url hc st)) = None"
    using that by (simp add: next_def Let_def i)
  have b4: "\<exists>v. snd (next parseUrl r hc st err) = Call_done v"
    if e: "err \<noteq> JStr ''router''" and l: "idx st < length (stack r)"
      and p: "getPathname parseUrl (sess (restore_url hc st)) = Some path"
      and nm: "\<forall>j. idx st \<le> j \<and> j < length (stack r) \<longrightarrow> layer_match (stack r ! j) path \<noteq> JBool True"
  proof -
    let ?le = "if err = JStr ''route'' then JNull else err"
    obtain i' le' m lo where
      sc: "scan (stack r) path (step (sess (restore_url hc st))) (idx st) ?le JUndefined None = (i', le', m, lo)"
      by (metis prod_cases4)
    have "m \<noteq> JBool True" using scan_no_match[OF sc _ nm] by simp
    then have "snd (next parseUrl r hc st err) = Call_done le'"
      using e l p sc by (auto simp: next_def Let_def i)
    then show ?thesis by blast
  qed
  show ?thesis using a b1 b2 b3 b4 by blast
qed

theorem terminal_callback_once_witness:
  "(\<exists>s' evs' c v. handle ex_parseUrl (ex_router [mw_layer ''/foo'' pass]) True (ex_session ''/bar'') =
       Inr (s', evs', Done c v)) \<and>
   snd (next ex_parseUrl (ex_router [mw_layer ''/foo'' pass]) ex_const (ex_state ''/bar'') (JStr ''router''))
     = Defer_done JNull \<and>
   snd (next ex_parseUrl (ex_router []) ex_const (ex_state ''/bar'') (JObj 1)) = Defer_done (JObj 1) \<and>
   snd (next ex_parseUrl (ex_router [mw_layer ''/foo'' pass]) ex_const (ex_state ''?x'') (JObj 1))
     = Call_done (JObj 1) \<and>
   (\<exists>v. snd (next ex_parseUrl (ex_router [mw_layer ''/foo'' pass]) ex_const (ex_state ''/bar'') JUndefined)
     = Call_done v)"
proof -
  let ?r = "ex_router [mw_layer ''/foo'' pass]"
  have resp: "responsive ?r"
    by (simp add: responsive_def ex_router_def mw_layer_def pass_def)
  have pu: "ex_parseUrl (url (ex_session ''/bar'')) \<noteq> None"
    by (simp add: ex_parseUrl_def Let_def)
  have len: "idx (ex_state u) < length (stack ?r)" for u
    by (simp add: ex_state_def ex_router_def)
  have len0: "length (stack (ex_router [])) \<le> idx (ex_state ''/bar'')"
    by (simp add: ex_state_def ex_router_def)
  have p1: "getPathname ex_parseUrl (sess (restore_url ex_const (ex_state ''/bar''))) = Some ''/bar''"
    by (simp add: getPathname_def ex_parseUrl_def restore_url_def ex_state_def ex_session_def Let_def)
  have p2: "getPathname ex_parseUrl (sess (restore_url ex_const (ex_state ''?x''))) = None"
    by (simp add: getPathname_def ex_parseUrl_def restore_url_def ex_state_def ex_session_def Let_def)
  have nm: "\<forall>j. idx (ex_state ''/bar'') \<le> j \<and> j < length (stack ?r) \<longrightarrow>
              layer_match (stack ?r ! j) ''/bar'' \<noteq> JBool True"
    by (simp add: ex_state_def ex_router_def mw_layer_def)
  have w1: "\<exists>s' evs' c v. handle ex_parseUrl ?r True (ex_session ''/bar'') = Inr (s', evs', Done c v)"
    using terminal_callback_once[of ?r ex_parseUrl "ex_session ''/bar''"] resp pu by blast
  have w2: "snd (next ex_parseUrl ?r ex_const (ex_state ''/bar'') (JStr ''router'')) = Defer_done JNull"
    using terminal_callback_once[of ?r ex_parseUrl _ "JStr ''router''" ex_const "ex_state ''/bar''"] by blast
  have w3: "snd (next ex_parseUrl (ex_router []) ex_const (ex_state ''/bar'') (JObj 1)) = Defer_done (JObj 1)"
    using terminal_callback_once[of "ex_router []" ex_parseUrl _ "JObj 1" ex_const "ex_state ''/bar''"] len0
    by simp
  have w4: "snd (next ex_parseUrl ?r ex_const (ex_state ''?x'') (JObj 1)) = Call_done (JObj 1)"
    using terminal_callback_once[of ?r ex_parseUrl _ "JObj 1" ex_const "ex_state ''?x''"] len p2
    by simp
  have w5: "\<exists>v. snd (next ex_parseUrl ?r ex_const (ex_state ''/bar'') JUndefined) = Call_done v"
    using terminal_callback_once[of ?r ex_parseUrl _ JUndefined ex_const "ex_state ''/bar''" "''/bar''"]
      len p1 nm by simp
  show ?thesis using w1 w2 w3 w4 w5 by blast
qed


section \<open>The resumption counter\<close>

text \<open>
  C5 fails on the code. The first dispatch runs the two layers and stops in the second,
  with \<open>step = 2\<close>. The context enters the router again: for the layer at index 0
  \<open>idx < session.step\<close> holds and \<open>continue\<close> is taken, but \<open>match\<close> is already
  \<open>true\<close>, so the loop ends and the layer is processed a second time.
\<close>

theorem step_does_not_skip_matching_layer:
  "handle ex_parseUrl two_layer_router True (ex_session ''/a'') =
     Inr (\<lparr>url = ''/a'', baseUrl = Some [], originalUrl = Some ''/a'', params = Some [],
           query = None, route = None, step = Some 2\<rparr>,
          [Request_handled 0, Request_handled 1], Stalled) \<and>
   handle ex_parseUrl two_layer_router True
       \<lparr>url = ''/a'', baseUrl = Some [], originalUrl = Some ''/a'', params = Some [],
        query = None, route = None, step = Some 2\<rparr> =
     Inr (\<lparr>url = ''/a'', baseUrl = Some [], originalUrl = Some ''/a'', params = Some [],
           query = None, route = None, step = Some 2\<rparr>,
          [Request_handled 0, Request_handled 1], Stalled)"
  by code_simp

text \<open>
  With no resumption in the way (\<open>session.step\<close> undefined or at most \<open>idx + 1\<close>), a
  scan that starts with a pending error keeps it and ends on no route-backed layer.
\<close>

lemma scan_turn_pending_error:
  assumes "truthy le" and "\<not> (case stp of None \<Rightarrow> False | Some n \<Rightarrow> i < n)"
    and "scan_turn stp i le l path = (le', m')"
  shows "le' = le \<and> (m' = JBool True \<longrightarrow> layer_route l = None)"
  using assms by (auto simp: scan_turn_def Let_def js_or_def split: if_splits)

lemma scan_skips_routes_on_error:
  "scan stk path stp i le m lo = (i', le', JBool True, Some l) \<Longrightarrow> truthy le \<Longrightarrow>
   m \<noteq> JBool True \<Longrightarrow> (\<forall>n. stp = Some n \<longrightarrow> n \<le> Suc i) \<Longrightarrow>
   layer_route l = None \<and> le' = le"
proof (induction stk path stp i le m lo rule: scan.induct)
  case (1 stk path stp i layerError m lo)
  have lt: "i < length stk"
  proof (rule ccontr)
    assume "\<not> i < length stk"
    then have "scan stk path stp i layerError m lo = (i, layerError, m, lo)" by (simp add: scan_done)
    then show False using "1.prems"(1,3) by simp
  qed
  obtain ea ma where t: "scan_turn stp (Suc i) layerError (stk ! i) path = (ea, ma)"
    by (cases "scan_turn stp (Suc i) layerError (stk ! i) path")
  have ns: "\<not> (case stp of None \<Rightarrow> False | Some n \<Rightarrow> Suc i < n)"
    using "1.prems"(4) by (auto split: option.splits)
  have ea: "ea = layerError" and ma: "ma = JBool True \<longrightarrow> layer_route (stk ! i) = None"
    using scan_turn_pending_error[OF "1.prems"(2) ns t] by simp_all
  have sc: "scan stk path stp (Suc i) ea ma (Some (stk ! i)) = (i', le', JBool True, Some l)"
    using "1.prems"(1,3) lt t by (simp add: scan_step)
  show ?case
  proof (cases "ma = JBool True")
    case True
    then have "scan stk path stp (Suc i) ea ma (Some (stk ! i)) = (Suc i, ea, ma, Some (stk ! i))"
      by (simp add: scan_done)
    then show ?thesis using sc ea ma True by simp
  next
    case False
    have "\<forall>n. stp = Some n \<longrightarrow> n \<le> Suc (Suc i)" using "1.prems"(4) by auto
    then show ?thesis
      using "1.IH"[OF _ t[symmetric] sc] "1.prems"(2,3) lt ea False by simp
  qed
qed

text \<open>
  C2 fails on the code, by the same \<open>continue\<close>. The mounted router ends with the error
  of its first layer and \<open>step = 3\<close>; back in the outer router, the route-backed layer
  at index 1 is read with \<open>idx = 2 < 3\<close>, so the test of the pending error is not
  reached: the Route handles the request, and the terminal callback gets no error.
\<close>

theorem pending_error_reaches_route:
  "handle ex_parseUrl inner_router True (ex_session ''/a'') =
     Inr (\<lparr>url = ''/a'', baseUrl = None, originalUrl = Some ''/a'', params = None,
           query = None, route = None, step = Some 3\<rparr>,
          [Request_handled 0], Done Direct (JObj 7)) \<and>
   handle ex_parseUrl outer_router True (ex_session ''/a'') =
     Inr (\<lparr>url = ''/a'', baseUrl = None, originalUrl = Some ''/a'', params = None,
           query = None, route = Some 1, step = Some 2\<rparr>,
          [Request_handled 0, Request_handled 1], Done Deferred JUndefined)"
  by code_simp

end
